theory Spec2Isabelle
  imports Main "HOL-Library.Sublist"
begin

section \<open>The parsed document\<close>

text \<open>
  The collector of \<^verbatim>\<open>graphql/exec.go\<close> walks the query AST of the parser library.
  Only the parts of the AST the collector reads are kept. A value node carries its kind and
  its raw text; an argument is a name with a value; a directive is a name with arguments.
\<close>

datatype ValueKind =
  Variable | IntValue | FloatValue | StringValue | BlockValue
  | BooleanValue | NullValue | EnumValue | ListValue | ObjectValue

datatype ast_value =
  Value (Kind: ValueKind) (Raw: string) (Children: "(string \<times> ast_value) list")

record argument =
  arg_Name :: string
  arg_Value :: ast_value

record directive =
  dir_Name :: string
  dir_Arguments :: "argument list"

text \<open>
  A selection is a field, an inline fragment or a fragment spread. \<open>OtherSelection\<close>
  stands for any other value of the selection interface (a nil entry), which reaches the
  \<^verbatim>\<open>default\<close> branch of the type switch. In a field the alias is always set: the parser
  copies the name into it when the query gives no alias.
\<close>

datatype selection =
  Field string string "argument list" "directive list" "selection list"
  | InlineFragment string "directive list" "selection list"
  | FragmentSpread string "directive list"
  | OtherSelection

record FragmentDefinition =
  frag_Name :: string
  frag_TypeCondition :: string
  frag_SelectionSet :: "selection list"

text \<open>
  Runtime values (Go's \<^verbatim>\<open>interface{}\<close>) as a datatype; the collector only ever asks
  whether a value is a boolean.
\<close>

datatype rtval =
  VNil | VBool bool | VInt int | VString string
  | VList "rtval list" | VMap "(string \<times> rtval) list"

type_synonym variables = "string \<rightharpoonup> rtval"

record RequestContext =
  Variables :: variables
  Fragments :: "FragmentDefinition list"

datatype error =
  ValueError string
  | MissingFragment string
  | UnsupportedSelection
  | IfNotDefined string
  | IfNotBoolean string

text \<open>
  \<^verbatim>\<open>ast.Value.Value(vars)\<close> belongs to the parser library. It is a parameter of the
  model: a function from a value node and the variables to a runtime value or an error
  message.
\<close>

type_synonym evaluator = "ast_value \<Rightarrow> variables \<Rightarrow> string + rtval"

text \<open>The three \<^verbatim>\<open>ForName\<close> lookups of the parser library return the first entry of that name.\<close>

definition ArgumentList_ForName :: "argument list \<Rightarrow> string \<Rightarrow> argument option" where
  "ArgumentList_ForName l name = find (\<lambda>it. arg_Name it = name) l"

definition DirectiveList_ForName :: "directive list \<Rightarrow> string \<Rightarrow> directive option" where
  "DirectiveList_ForName l name = find (\<lambda>it. dir_Name it = name) l"

definition FragmentDefinitionList_ForName ::
  "FragmentDefinition list \<Rightarrow> string \<Rightarrow> FragmentDefinition option" where
  "FragmentDefinitionList_ForName l name = find (\<lambda>it. frag_Name it = name) l"

section \<open>The collector\<close>

record CollectedField =
  Alias :: string
  Name :: string
  Args :: "variables option"
  Selections :: "selection list"

fun instanceOf :: "string \<Rightarrow> string list \<Rightarrow> bool" where
  "instanceOf val [] = False"
| "instanceOf val (s # satisfies) = (if val = s then True else instanceOf val satisfies)"

definition resolveIfArgument :: "evaluator \<Rightarrow> directive \<Rightarrow> variables \<Rightarrow> error + bool" where
  "resolveIfArgument ev d variables =
     (case ArgumentList_ForName (dir_Arguments d) ''if'' of
        None \<Rightarrow> Inl (IfNotDefined (dir_Name d))
      | Some arg \<Rightarrow>
          (case ev (arg_Value arg) variables of
             Inl err \<Rightarrow> Inl (ValueError err)
           | Inr (VBool ret) \<Rightarrow> Inr ret
           | Inr _ \<Rightarrow> Inl (IfNotBoolean (dir_Name d))))"

definition shouldIncludeNode ::
  "evaluator \<Rightarrow> directive list \<Rightarrow> variables \<Rightarrow> error + bool" where
  "shouldIncludeNode ev directives variables =
     (case DirectiveList_ForName directives ''skip'' of
        Some d \<Rightarrow>
          (case resolveIfArgument ev d variables of
             Inl e \<Rightarrow> Inl e
           | Inr b \<Rightarrow> Inr (\<not> b))
      | None \<Rightarrow>
          (case DirectiveList_ForName directives ''include'' of
             Some d \<Rightarrow> resolveIfArgument ev d variables
           | None \<Rightarrow> Inr True))"

text \<open>
  The loop over \<^verbatim>\<open>sel.Arguments\<close> inside the field's creator closure: a variable argument
  is stored only when the variable is bound, a literal is evaluated and an evaluation
  error panics.
\<close>

fun collectArguments ::
  "evaluator \<Rightarrow> variables \<Rightarrow> argument list \<Rightarrow> variables \<Rightarrow> error + variables" where
  "collectArguments ev vars [] m = Inr m"
| "collectArguments ev vars (arg # rest) m =
     (if Kind (arg_Value arg) = Variable then
        (case vars (Raw (arg_Value arg)) of
           Some val \<Rightarrow> collectArguments ev vars rest (m(arg_Name arg \<mapsto> val))
         | None \<Rightarrow> collectArguments ev vars rest m)
      else
        (case ev (arg_Value arg) vars of
           Inl err \<Rightarrow> Inl (ValueError err)
         | Inr v \<Rightarrow> collectArguments ev vars rest (m(arg_Name arg \<mapsto> v))))"

text \<open>The creator closure of the field case; \<open>Args\<close> stays nil when the field has no arguments.\<close>

definition newCollectedField ::
  "evaluator \<Rightarrow> variables \<Rightarrow> string \<Rightarrow> string \<Rightarrow> argument list \<Rightarrow> error + CollectedField" where
  "newCollectedField ev vars alias name arguments =
     (if length arguments > 0 then
        (case collectArguments ev vars arguments Map.empty of
           Inl e \<Rightarrow> Inl e
         | Inr m \<Rightarrow> Inr \<lparr>Alias = alias, Name = name, Args = Some m, Selections = []\<rparr>)
      else Inr \<lparr>Alias = alias, Name = name, Args = None, Selections = []\<rparr>)"

text \<open>
  \<^verbatim>\<open>getOrCreateField\<close> returns a pointer into the slice; the model returns the slice and
  the index of the entry. The creator runs only when no entry has the alias.
\<close>

fun indexOfAlias :: "CollectedField list \<Rightarrow> string \<Rightarrow> nat option" where
  "indexOfAlias [] name = None"
| "indexOfAlias (cf # c) name =
     (if Alias cf = name then Some 0 else map_option Suc (indexOfAlias c name))"

definition getOrCreateField ::
  "CollectedField list \<Rightarrow> string \<Rightarrow> (unit \<Rightarrow> error + CollectedField)
     \<Rightarrow> error + (CollectedField list \<times> nat)" where
  "getOrCreateField c name creator =
     (case indexOfAlias c name of
        Some i \<Rightarrow> Inr (c, i)
      | None \<Rightarrow>
          (case creator () of
             Inl e \<Rightarrow> Inl e
           | Inr f \<Rightarrow> Inr (c @ [f], length c)))"

text \<open>\<^verbatim>\<open>f.Selections = append(f.Selections, sels...)\<close> through the returned pointer.\<close>

definition appendSelections ::
  "CollectedField list \<Rightarrow> nat \<Rightarrow> selection list \<Rightarrow> CollectedField list" where
  "appendSelections c i sels = c[i := (c ! i)\<lparr>Selections := Selections (c ! i) @ sels\<rparr>]"

text \<open>
  The loop that merges the fields collected from a fragment into the outer result. It
  looks the entry up by \<^verbatim>\<open>childField.Name\<close> and the creator returns the child itself.
\<close>

fun mergeChildFields ::
  "CollectedField list \<Rightarrow> CollectedField list \<Rightarrow> error + CollectedField list" where
  "mergeChildFields groupedFields [] = Inr groupedFields"
| "mergeChildFields groupedFields (childField # rest) =
     (case getOrCreateField groupedFields (Name childField) (\<lambda>_. Inr childField) of
        Inl e \<Rightarrow> Inl e
      | Inr (c, i) \<Rightarrow> mergeChildFields (appendSelections c i (Selections childField)) rest)"

text \<open>
  \<^verbatim>\<open>collectFields\<close>: the loop over the selection set, with the accumulated
  \<^verbatim>\<open>groupedFields\<close> and the shared \<^verbatim>\<open>visited\<close> map (used as a set of names) passed
  explicitly and returned. A recursive call starts from an empty result and hands its
  \<open>visited\<close> back to the caller.
\<close>

function (domintros) collectFields_loop ::
  "evaluator \<Rightarrow> RequestContext \<Rightarrow> selection list \<Rightarrow> string list \<Rightarrow> string set
     \<Rightarrow> CollectedField list \<Rightarrow> error + (CollectedField list \<times> string set)" where
  "collectFields_loop ev reqCtx [] satisfies visited groupedFields =
     Inr (groupedFields, visited)"
| "collectFields_loop ev reqCtx (Field alias name arguments directives selectionSet # selSet)
       satisfies visited groupedFields =
     (case shouldIncludeNode ev directives (Variables reqCtx) of
        Inl e \<Rightarrow> Inl e
      | Inr inc \<Rightarrow>
          if \<not> inc then collectFields_loop ev reqCtx selSet satisfies visited groupedFields
          else
            (case getOrCreateField groupedFields alias
                    (\<lambda>_. newCollectedField ev (Variables reqCtx) alias name arguments) of
               Inl e \<Rightarrow> Inl e
             | Inr (c, i) \<Rightarrow>
                 collectFields_loop ev reqCtx selSet satisfies visited
                   (appendSelections c i selectionSet)))"
| "collectFields_loop ev reqCtx (InlineFragment typeCondition directives selectionSet # selSet)
       satisfies visited groupedFields =
     (case shouldIncludeNode ev directives (Variables reqCtx) of
        Inl e \<Rightarrow> Inl e
      | Inr inc \<Rightarrow>
          if \<not> inc \<or> \<not> instanceOf typeCondition satisfies
          then collectFields_loop ev reqCtx selSet satisfies visited groupedFields
          else
            (case collectFields_loop ev reqCtx selectionSet satisfies visited [] of
               Inl e \<Rightarrow> Inl e
             | Inr (children, visited') \<Rightarrow>
                 (case mergeChildFields groupedFields children of
                    Inl e \<Rightarrow> Inl e
                  | Inr grouped' \<Rightarrow>
                      collectFields_loop ev reqCtx selSet satisfies visited' grouped')))"
| "collectFields_loop ev reqCtx (FragmentSpread fragmentName directives # selSet)
       satisfies visited groupedFields =
     (case shouldIncludeNode ev directives (Variables reqCtx) of
        Inl e \<Rightarrow> Inl e
      | Inr inc \<Rightarrow>
          if \<not> inc then collectFields_loop ev reqCtx selSet satisfies visited groupedFields
          else if fragmentName \<in> visited
          then collectFields_loop ev reqCtx selSet satisfies visited groupedFields
          else
            (case FragmentDefinitionList_ForName (Fragments reqCtx) fragmentName of
               None \<Rightarrow> Inl (MissingFragment fragmentName)
             | Some fragment \<Rightarrow>
                 if \<not> instanceOf (frag_TypeCondition fragment) satisfies
                 then collectFields_loop ev reqCtx selSet satisfies
                        (insert fragmentName visited) groupedFields
                 else
                   (case collectFields_loop ev reqCtx (frag_SelectionSet fragment) satisfies
                           (insert fragmentName visited) [] of
                      Inl e \<Rightarrow> Inl e
                    | Inr (children, visited') \<Rightarrow>
                        (case mergeChildFields groupedFields children of
                           Inl e \<Rightarrow> Inl e
                         | Inr grouped' \<Rightarrow>
                             collectFields_loop ev reqCtx selSet satisfies visited' grouped'))))"
| "collectFields_loop ev reqCtx (OtherSelection # selSet) satisfies visited groupedFields =
     Inl UnsupportedSelection"
  by pat_completeness auto

text \<open>\<^verbatim>\<open>collectFields\<close> starts the loop with an empty result.\<close>

definition collectFields ::
  "evaluator \<Rightarrow> RequestContext \<Rightarrow> selection list \<Rightarrow> string list \<Rightarrow> string set
     \<Rightarrow> error + (CollectedField list \<times> string set)" where
  "collectFields ev reqCtx selSet satisfies visited =
     collectFields_loop ev reqCtx selSet satisfies visited []"

text \<open>\<^verbatim>\<open>CollectFields\<close> starts from a fresh \<open>visited\<close> map and returns the fields only.\<close>

definition CollectFields ::
  "evaluator \<Rightarrow> RequestContext \<Rightarrow> selection list \<Rightarrow> string list
     \<Rightarrow> error + CollectedField list" where
  "CollectFields ev reqCtx selSet satisfies =
     (case collectFields ev reqCtx selSet satisfies {} of
        Inl e \<Rightarrow> Inl e
      | Inr (groupedFields, visited) \<Rightarrow> Inr groupedFields)"


text \<open>
  An evaluator for the examples. It follows the parser library on variables (an unbound
  variable evaluates to nil), booleans, strings, enums and null; the examples use no
  other kind of value.
\<close>

definition sampleEvaluator :: evaluator where
  "sampleEvaluator v vars =
     (case Kind v of
        Variable \<Rightarrow> (case vars (Raw v) of Some val \<Rightarrow> Inr val | None \<Rightarrow> Inr VNil)
      | BooleanValue \<Rightarrow>
          (if Raw v = ''true'' then Inr (VBool True)
           else if Raw v = ''false'' then Inr (VBool False)
           else Inl ''invalid syntax'')
      | StringValue \<Rightarrow> Inr (VString (Raw v))
      | BlockValue \<Rightarrow> Inr (VString (Raw v))
      | EnumValue \<Rightarrow> Inr (VString (Raw v))
      | NullValue \<Rightarrow> Inr VNil
      | _ \<Rightarrow> Inl ''not evaluated in the examples'')"

section \<open>Example documents\<close>

text \<open>Documents and directive lists of the concrete examples.\<close>

definition emptyDoc :: RequestContext where
  "emptyDoc = \<lparr>Variables = Map.empty, Fragments = []\<rparr>"

text \<open>
  Fragment \<open>A\<close> selects the field \<open>a\<close> and spreads \<open>B\<close>; fragment \<open>B\<close> selects
  the field \<open>b\<close>.
\<close>

definition docAB :: RequestContext where
  "docAB = \<lparr>Variables = Map.empty,
            Fragments =
              [\<lparr>frag_Name = ''A'', frag_TypeCondition = ''T'',
                frag_SelectionSet = [Field ''a'' ''a'' [] [] [], FragmentSpread ''B'' []]\<rparr>,
               \<lparr>frag_Name = ''B'', frag_TypeCondition = ''T'',
                frag_SelectionSet = [Field ''b'' ''b'' [] [] []]\<rparr>]\<rparr>"

text \<open>\<^verbatim>\<open>@skip(if: false) @include\<close>: a well-formed skip and an include without argument.\<close>

definition skipFalseIncludeBare :: "directive list" where
  "skipFalseIncludeBare =
     [\<lparr>dir_Name = ''skip'',
       dir_Arguments = [\<lparr>arg_Name = ''if'', arg_Value = Value BooleanValue ''false'' []\<rparr>]\<rparr>,
      \<lparr>dir_Name = ''include'', dir_Arguments = []\<rparr>]"

text \<open>\<^verbatim>\<open>@skip(if: "yes")\<close>: the argument is a string, not a boolean.\<close>

definition skipIfString :: directive where
  "skipIfString =
     \<lparr>dir_Name = ''skip'',
      dir_Arguments = [\<lparr>arg_Name = ''if'', arg_Value = Value StringValue ''yes'' []\<rparr>]\<rparr>"

text \<open>A field without alias, arguments, directives and subselections.\<close>

definition leaf :: "string \<Rightarrow> selection" where
  "leaf name = Field name name [] [] []"


text \<open>
  Fragment \<open>A\<close> selects \<open>x: a { p }\<close> and spreads \<open>B\<close>; fragment \<open>B\<close> selects \<open>b\<close>
  and spreads \<open>A\<close>.
\<close>

definition docCycleAliased :: RequestContext where
  "docCycleAliased = \<lparr>Variables = Map.empty,
               Fragments =
                 [\<lparr>frag_Name = ''A'', frag_TypeCondition = ''T'',
                   frag_SelectionSet =
                     [Field ''x'' ''a'' [] [] [leaf ''p''], FragmentSpread ''B'' []]\<rparr>,
                  \<lparr>frag_Name = ''B'', frag_TypeCondition = ''T'',
                   frag_SelectionSet =
                     [Field ''b'' ''b'' [] [] [], FragmentSpread ''A'' []]\<rparr>]\<rparr>"

section \<open>Vocabulary of the statements\<close>

text \<open>
  The part of a collected field that no later selection may change: its response key, its
  name and its arguments. One result keeps the entries of another when the headers of the
  first are a prefix of the headers of the second.
\<close>

definition entryHeader :: "CollectedField \<Rightarrow> string \<times> string \<times> variables option" where
  "entryHeader cf = (Alias cf, Name cf, Args cf)"

definition keepsEntries :: "CollectedField list \<Rightarrow> CollectedField list \<Rightarrow> bool" where
  "keepsEntries g g' = prefix (map entryHeader g) (map entryHeader g')"

text \<open>A selection that is a field with a response key other than \<open>k\<close>.\<close>

fun otherField :: "string \<Rightarrow> selection \<Rightarrow> bool" where
  "otherField k (Field al nm arguments directives selectionSet) = (al \<noteq> k)"
| "otherField k _ = False"

text \<open>
  The measure of the termination proof: the number of fragment names of the document
  that are not yet visited, then the size of the selection set.
\<close>

definition collect_measure ::
  "evaluator \<times> RequestContext \<times> selection list \<times> string list \<times> string set \<times> CollectedField list
     \<Rightarrow> nat \<times> nat" where
  "collect_measure = (\<lambda>(ev, reqCtx, selSet, satisfies, visited, groupedFields).
      (card (frag_Name ` set (Fragments reqCtx) - visited), size_list size selSet))"

section \<open>Termination\<close>

text \<open>
  A spread recurses into a fragment of the document, which is not a part of
  the selection set, so the argument is not structural: every such call marks a fragment
  name that was not yet visited, and the names of the document's fragments are finitely
  many. The calls that continue the loop after a fragment receive the \<open>visited\<close> set the
  nested call returned, which only grows.
\<close>

lemma ForName_frag:
  "FragmentDefinitionList_ForName l name = Some fr \<Longrightarrow> name \<in> frag_Name ` set l"
  by (induction l) (auto simp: FragmentDefinitionList_ForName_def split: if_splits)

lemma loop_visited_mono_dom:
  "collectFields_loop_dom (ev, reqCtx, selSet, satisfies, visited, groupedFields) \<Longrightarrow>
   collectFields_loop ev reqCtx selSet satisfies visited groupedFields = Inr (g', v') \<Longrightarrow>
   visited \<subseteq> v'"
proof (induction ev reqCtx selSet satisfies visited groupedFields arbitrary: g' v'
       rule: collectFields_loop.pinduct)
  case (1 ev reqCtx satisfies visited groupedFields)
  then show ?case by (simp add: collectFields_loop.psimps)
next
  case (2 ev reqCtx al nm arguments directives selectionSet selSet satisfies visited groupedFields)
  note eq = "2.prems" [unfolded collectFields_loop.psimps(2) [OF "2.hyps"]]
  from eq obtain b where b: "shouldIncludeNode ev directives (Variables reqCtx) = Inr b"
    by (cases "shouldIncludeNode ev directives (Variables reqCtx)") simp_all
  show ?case
  proof (cases b)
    case False
    with eq b "2.IH"(1) show ?thesis by simp
  next
    case True
    with eq b obtain c i where
      "getOrCreateField groupedFields al
         (\<lambda>_. newCollectedField ev (Variables reqCtx) al nm arguments) = Inr (c, i)"
      "collectFields_loop ev reqCtx selSet satisfies visited
         (appendSelections c i selectionSet) = Inr (g', v')"
      by (simp split: sum.splits prod.splits)
    with b True "2.IH"(2) show ?thesis by simp
  qed
next
  case (3 ev reqCtx typeCondition directives selectionSet selSet satisfies visited groupedFields)
  note eq = "3.prems" [unfolded collectFields_loop.psimps(3) [OF "3.hyps"]]
  from eq obtain b where b: "shouldIncludeNode ev directives (Variables reqCtx) = Inr b"
    by (cases "shouldIncludeNode ev directives (Variables reqCtx)") simp_all
  show ?case
  proof (cases "\<not> b \<or> \<not> instanceOf typeCondition satisfies")
    case True
    with eq b "3.IH"(1) show ?thesis by simp
  next
    case False
    with eq b obtain children vis1 g1 where
      inner: "collectFields_loop ev reqCtx selectionSet satisfies visited [] = Inr (children, vis1)"
      and m: "mergeChildFields groupedFields children = Inr g1"
      and rest: "collectFields_loop ev reqCtx selSet satisfies vis1 g1 = Inr (g', v')"
      by (simp split: sum.splits prod.splits)
    from "3.IH"(2) [OF b False inner] have "visited \<subseteq> vis1" .
    moreover from "3.IH"(3) [OF b False inner refl m rest] have "vis1 \<subseteq> v'" .
    ultimately show ?thesis by simp
  qed
next
  case (4 ev reqCtx fragmentName directives selSet satisfies visited groupedFields)
  note eq = "4.prems" [unfolded collectFields_loop.psimps(4) [OF "4.hyps"]]
  from eq obtain b where b: "shouldIncludeNode ev directives (Variables reqCtx) = Inr b"
    by (cases "shouldIncludeNode ev directives (Variables reqCtx)") simp_all
  show ?case
  proof (cases "\<not> b")
    case True
    with eq b "4.IH"(1) show ?thesis by simp
  next
    case inc: False
    show ?thesis
    proof (cases "fragmentName \<in> visited")
      case True
      with eq b inc "4.IH"(2) show ?thesis by simp
    next
      case unseen: False
      with eq b inc obtain fragment where
        fr: "FragmentDefinitionList_ForName (Fragments reqCtx) fragmentName = Some fragment"
        by (cases "FragmentDefinitionList_ForName (Fragments reqCtx) fragmentName") simp_all
      show ?thesis
      proof (cases "\<not> instanceOf (frag_TypeCondition fragment) satisfies")
        case True
        with eq b inc unseen fr have
          "collectFields_loop ev reqCtx selSet satisfies (insert fragmentName visited)
             groupedFields = Inr (g', v')"
          by simp
        from "4.IH"(3) [OF b inc unseen fr True this] show ?thesis by blast
      next
        case False
        with eq b inc unseen fr obtain children vis1 g1 where
          inner: "collectFields_loop ev reqCtx (frag_SelectionSet fragment) satisfies
                    (insert fragmentName visited) [] = Inr (children, vis1)"
          and m: "mergeChildFields groupedFields children = Inr g1"
          and rest: "collectFields_loop ev reqCtx selSet satisfies vis1 g1 = Inr (g', v')"
          by (simp split: sum.splits prod.splits)
        from "4.IH"(4) [OF b inc unseen fr False inner]
        have "insert fragmentName visited \<subseteq> vis1" .
        moreover from "4.IH"(5) [OF b inc unseen fr False inner refl m rest]
        have "vis1 \<subseteq> v'" .
        ultimately show ?thesis by blast
      qed
    qed
  qed
next
  case (5 ev reqCtx selSet satisfies visited groupedFields)
  then show ?case by (simp add: collectFields_loop.psimps)
qed

lemma card_unvisited_mono:
  "visited \<subseteq> v' \<Longrightarrow> card (frag_Name ` set l - v') \<le> card (frag_Name ` set l - visited)"
  by (rule card_mono) auto

lemma card_unvisited_less:
  "n \<in> frag_Name ` set l \<Longrightarrow> n \<notin> visited \<Longrightarrow> insert n visited \<subseteq> v' \<Longrightarrow>
   card (frag_Name ` set l - v') < card (frag_Name ` set l - visited)"
  by (rule psubset_card_mono) auto


lemma lex_le_less:
  "(c'::nat) \<le> c \<Longrightarrow> (s'::nat) < s \<Longrightarrow> ((c', s'), (c, s)) \<in> less_than <*lex*> less_than"
  by auto

termination collectFields_loop
proof (relation "inv_image (less_than <*lex*> less_than) collect_measure", goal_cases)
  case 1
  show ?case by (intro wf_inv_image wf_lex_prod wf_less_than)
next
  case 2
  then show ?case by (simp add: collect_measure_def)
next
  case 3
  then show ?case by (simp add: collect_measure_def)
next
  case 4
  then show ?case by (simp add: collect_measure_def)
next
  case 5
  then show ?case by (simp add: collect_measure_def)
next
  case (6 ev reqCtx typeCondition directives selectionSet selSet satisfies visited groupedFields
          b ba x y bb)
  then have "visited \<subseteq> y"
    using loop_visited_mono_dom [of ev reqCtx selectionSet satisfies visited "[]" x y] by simp
  then show ?case
    unfolding in_inv_image collect_measure_def prod.case
    by (intro lex_le_less card_unvisited_mono) simp_all
next
  case 7
  then show ?case by (simp add: collect_measure_def)
next
  case 8
  then show ?case by (simp add: collect_measure_def)
next
  case (9 ev reqCtx fragmentName directives selSet satisfies visited groupedFields b x2)
  then show ?case
    unfolding in_inv_image collect_measure_def prod.case
    by (intro lex_le_less card_unvisited_mono) auto
next
  case (10 ev reqCtx fragmentName directives selSet satisfies visited groupedFields b x2)
  then have "card (frag_Name ` set (Fragments reqCtx) - insert fragmentName visited)
             < card (frag_Name ` set (Fragments reqCtx) - visited)"
    by (intro card_unvisited_less [of fragmentName]) (auto dest: ForName_frag)
  then show ?case by (simp add: collect_measure_def)
next
  case (11 ev reqCtx fragmentName directives selSet satisfies visited groupedFields
           b x2 ba x y bb)
  then have "insert fragmentName visited \<subseteq> y"
    using loop_visited_mono_dom
            [of ev reqCtx "frag_SelectionSet x2" satisfies "insert fragmentName visited" "[]" x y]
    by simp
  then have "visited \<subseteq> y" by blast
  then show ?case
    unfolding in_inv_image collect_measure_def prod.case
    by (intro lex_le_less card_unvisited_mono) simp_all
qed

section \<open>Facts about the loop\<close>

text \<open>
  Every input lies in the domain of the recursion: no chain of recursive calls is infinite.
\<close>

lemma collectFields_loop_total:
  "collectFields_loop_dom (ev, reqCtx, selSet, satisfies, visited, groupedFields)"
proof (induction ev reqCtx selSet satisfies visited groupedFields
       rule: collectFields_loop.induct)
  case (1 ev reqCtx satisfies visited groupedFields)
  show ?case by (rule collectFields_loop.domintros)
next
  case (2 ev reqCtx al nm arguments directives selectionSet selSet satisfies visited groupedFields)
  show ?case by (rule collectFields_loop.domintros) (use 2 in auto)
next
  case (3 ev reqCtx typeCondition directives selectionSet selSet satisfies visited groupedFields)
  show ?case by (rule collectFields_loop.domintros) (use 3 in auto)
next
  case (4 ev reqCtx fragmentName directives selSet satisfies visited groupedFields)
  show ?case by (rule collectFields_loop.domintros) (use 4 in auto)
next
  case (5 ev reqCtx selSet satisfies visited groupedFields)
  show ?case by (rule collectFields_loop.domintros)
qed

text \<open>The definitions unfolded to evaluate the collector on a concrete document.\<close>

lemmas collect_defs =
  CollectFields_def collectFields_def shouldIncludeNode_def resolveIfArgument_def
  DirectiveList_ForName_def ArgumentList_ForName_def FragmentDefinitionList_ForName_def
  getOrCreateField_def newCollectedField_def appendSelections_def sampleEvaluator_def

lemma instanceOf_iff: "instanceOf val satisfies \<longleftrightarrow> val \<in> set satisfies"
  by (induction satisfies) auto

lemma loop_visited_mono:
  "collectFields_loop ev reqCtx selSet satisfies visited g = Inr (g', v') \<Longrightarrow> visited \<subseteq> v'"
  by (rule loop_visited_mono_dom [OF collectFields_loop_total])

lemma loop_Field_cases [consumes 1, case_names skipped merged]:
  assumes "collectFields_loop ev reqCtx (Field al nm arguments directives selectionSet # selSet)
             satisfies visited g = Inr (g', v')"
  obtains
    "shouldIncludeNode ev directives (Variables reqCtx) = Inr False"
    "collectFields_loop ev reqCtx selSet satisfies visited g = Inr (g', v')"
  | c i where
    "shouldIncludeNode ev directives (Variables reqCtx) = Inr True"
    "getOrCreateField g al (\<lambda>_. newCollectedField ev (Variables reqCtx) al nm arguments)
       = Inr (c, i)"
    "collectFields_loop ev reqCtx selSet satisfies visited (appendSelections c i selectionSet)
       = Inr (g', v')"
  using assms by (auto split: sum.splits if_splits prod.splits)

lemma loop_InlineFragment_cases [consumes 1, case_names skipped expanded]:
  assumes "collectFields_loop ev reqCtx (InlineFragment typeCondition directives selectionSet # selSet)
             satisfies visited g = Inr (g', v')"
  obtains b where
    "shouldIncludeNode ev directives (Variables reqCtx) = Inr b"
    "\<not> b \<or> \<not> instanceOf typeCondition satisfies"
    "collectFields_loop ev reqCtx selSet satisfies visited g = Inr (g', v')"
  | b children visited' grouped' where
    "shouldIncludeNode ev directives (Variables reqCtx) = Inr b"
    "\<not> (\<not> b \<or> \<not> instanceOf typeCondition satisfies)"
    "collectFields_loop ev reqCtx selectionSet satisfies visited [] = Inr (children, visited')"
    "mergeChildFields g children = Inr grouped'"
    "collectFields_loop ev reqCtx selSet satisfies visited' grouped' = Inr (g', v')"
  using assms by (auto split: sum.splits if_splits prod.splits)

lemma loop_FragmentSpread_cases
  [consumes 1, case_names skipped seen incompatible expanded]:
  assumes "collectFields_loop ev reqCtx (FragmentSpread fragmentName directives # selSet)
             satisfies visited g = Inr (g', v')"
  obtains
    "shouldIncludeNode ev directives (Variables reqCtx) = Inr False"
    "collectFields_loop ev reqCtx selSet satisfies visited g = Inr (g', v')"
  | "shouldIncludeNode ev directives (Variables reqCtx) = Inr True"
    "fragmentName \<in> visited"
    "collectFields_loop ev reqCtx selSet satisfies visited g = Inr (g', v')"
  | fragment where
    "shouldIncludeNode ev directives (Variables reqCtx) = Inr True"
    "fragmentName \<notin> visited"
    "FragmentDefinitionList_ForName (Fragments reqCtx) fragmentName = Some fragment"
    "\<not> instanceOf (frag_TypeCondition fragment) satisfies"
    "collectFields_loop ev reqCtx selSet satisfies (insert fragmentName visited) g = Inr (g', v')"
  | fragment children visited' grouped' where
    "shouldIncludeNode ev directives (Variables reqCtx) = Inr True"
    "fragmentName \<notin> visited"
    "FragmentDefinitionList_ForName (Fragments reqCtx) fragmentName = Some fragment"
    "\<not> \<not> instanceOf (frag_TypeCondition fragment) satisfies"
    "collectFields_loop ev reqCtx (frag_SelectionSet fragment) satisfies
       (insert fragmentName visited) [] = Inr (children, visited')"
    "mergeChildFields g children = Inr grouped'"
    "collectFields_loop ev reqCtx selSet satisfies visited' grouped' = Inr (g', v')"
  using assms by (auto split: sum.splits if_splits prod.splits option.splits)

lemma loop_append:
  "collectFields_loop ev reqCtx (xs @ ys) satisfies visited g =
     (case collectFields_loop ev reqCtx xs satisfies visited g of
        Inl e \<Rightarrow> Inl e
      | Inr (g', v') \<Rightarrow> collectFields_loop ev reqCtx ys satisfies v' g')"
proof (induction ev reqCtx xs satisfies visited g rule: collectFields_loop.induct)
  case (1 ev reqCtx satisfies visited groupedFields)
  show ?case by simp
next
  case (2 ev reqCtx al nm arguments directives selectionSet selSet satisfies visited groupedFields)
  then show ?case
    by (simp split: sum.splits prod.splits)
next
  case (3 ev reqCtx typeCondition directives selectionSet selSet satisfies visited groupedFields)
  then show ?case
    by (simp split: sum.splits prod.splits)
next
  case (4 ev reqCtx fragmentName directives selSet satisfies visited groupedFields)
  then show ?case
    by (simp split: sum.splits prod.splits option.splits)
next
  case (5 ev reqCtx selSet satisfies visited groupedFields)
  show ?case by simp
qed


lemma CollectFields_loop:
  "CollectFields ev reqCtx selSet satisfies =
     (case collectFields_loop ev reqCtx selSet satisfies {} [] of
        Inl e \<Rightarrow> Inl e
      | Inr (groupedFields, visited) \<Rightarrow> Inr groupedFields)"
  by (simp add: CollectFields_def collectFields_def)

lemma docAB_A:
  "collectFields_loop sampleEvaluator docAB [FragmentSpread ''A'' []] [''T''] {} []
   = Inr ([\<lparr>Alias = ''a'', Name = ''a'', Args = None, Selections = []\<rparr>,
           \<lparr>Alias = ''b'', Name = ''b'', Args = None, Selections = []\<rparr>], {''A'', ''B''})"
  by (simp add: collect_defs docAB_def insert_commute)

lemma shouldIncludeNode_Nil: "shouldIncludeNode ev [] vars = Inr True"
  by (simp add: shouldIncludeNode_def DirectiveList_ForName_def)

lemma keepsEntries_refl: "keepsEntries g g"
  by (simp add: keepsEntries_def)

lemma keepsEntries_trans: "keepsEntries a b \<Longrightarrow> keepsEntries b c \<Longrightarrow> keepsEntries a c"
  unfolding keepsEntries_def by (rule prefix_order.trans)

lemma keepsEntries_length: "keepsEntries g g' \<Longrightarrow> length g \<le> length g'"
  unfolding keepsEntries_def by (drule prefix_length_le) simp

lemma keepsEntries_nth:
  assumes "keepsEntries g g'" "i < length g"
  shows "entryHeader (g' ! i) = entryHeader (g ! i)"
proof -
  from assms(1) obtain ext where ext: "map entryHeader g' = map entryHeader g @ ext"
    by (auto simp: keepsEntries_def prefix_def)
  from assms have "i < length g'" by (auto dest: keepsEntries_length)
  then have "entryHeader (g' ! i) = map entryHeader g' ! i" by simp
  also have "\<dots> = map entryHeader g ! i" using assms(2) by (simp add: ext nth_append)
  also have "\<dots> = entryHeader (g ! i)" using assms(2) by simp
  finally show ?thesis .
qed

lemma map_entryHeader_appendSelections:
  "map entryHeader (appendSelections c i sels) = map entryHeader c"
proof (cases "i < length c")
  case True
  have "map entryHeader (appendSelections c i sels)
        = (map entryHeader c)[i := entryHeader (c ! i)]"
    by (simp add: appendSelections_def map_update entryHeader_def)
  also have "\<dots> = map entryHeader c"
    using True by (simp add: list_update_same_conv)
  finally show ?thesis .
next
  case False
  then show ?thesis by (simp add: appendSelections_def list_update_beyond)
qed

lemma keepsEntries_appendSelections: "keepsEntries c (appendSelections c i sels)"
  by (simp add: keepsEntries_def map_entryHeader_appendSelections)

lemma keepsEntries_getOrCreateField:
  "getOrCreateField g name creator = Inr (c, i) \<Longrightarrow> keepsEntries g c"
  by (auto simp: getOrCreateField_def keepsEntries_def split: option.splits sum.splits)

lemma keepsEntries_merge_step:
  "getOrCreateField g name creator = Inr (c, i) \<Longrightarrow> keepsEntries g (appendSelections c i sels)"
  by (blast intro: keepsEntries_trans keepsEntries_getOrCreateField keepsEntries_appendSelections)

lemma keepsEntries_mergeChildFields:
  "mergeChildFields g children = Inr g' \<Longrightarrow> keepsEntries g g'"
proof (induction children arbitrary: g)
  case Nil
  then show ?case by (simp add: keepsEntries_refl)
next
  case (Cons child children)
  from Cons.prems obtain c i where
    goc: "getOrCreateField g (Name child) (\<lambda>_. Inr child) = Inr (c, i)"
    and rest: "mergeChildFields (appendSelections c i (Selections child)) children = Inr g'"
    by (auto split: sum.splits)
  from keepsEntries_merge_step [OF goc] Cons.IH [OF rest] show ?case
    by (rule keepsEntries_trans)
qed

lemma keepsEntries_loop:
  "collectFields_loop ev reqCtx selSet satisfies visited g = Inr (g', v') \<Longrightarrow> keepsEntries g g'"
proof (induction ev reqCtx selSet satisfies visited g arbitrary: g' v'
       rule: collectFields_loop.induct)
  case (1 ev reqCtx satisfies visited groupedFields)
  then show ?case by (simp add: keepsEntries_refl)
next
  case (2 ev reqCtx al nm arguments directives selectionSet selSet satisfies visited groupedFields)
  from "2.prems" show ?case
  proof (cases rule: loop_Field_cases)
    case skipped
    from "2.IH"(1) [OF skipped(1) _ skipped(2)] show ?thesis by simp
  next
    case (merged c i)
    from "2.IH"(2) [OF merged(1) _ merged(2) refl merged(3)]
    have "keepsEntries (appendSelections c i selectionSet) g'" by simp
    with keepsEntries_merge_step [OF merged(2)] show ?thesis by (rule keepsEntries_trans)
  qed
next
  case (3 ev reqCtx typeCondition directives selectionSet selSet satisfies visited groupedFields)
  from "3.prems" show ?case
  proof (cases rule: loop_InlineFragment_cases)
    case (skipped b)
    from "3.IH"(1) [OF skipped] show ?thesis .
  next
    case (expanded b children visited' grouped')
    from expanded(4) have "keepsEntries groupedFields grouped'"
      by (rule keepsEntries_mergeChildFields)
    moreover from "3.IH"(3) [OF expanded(1,2,3) refl expanded(4,5)]
    have "keepsEntries grouped' g'" .
    ultimately show ?thesis by (rule keepsEntries_trans)
  qed
next
  case (4 ev reqCtx fragmentName directives selSet satisfies visited groupedFields)
  from "4.prems" show ?case
  proof (cases rule: loop_FragmentSpread_cases)
    case skipped
    from "4.IH"(1) [OF skipped(1) _ skipped(2)] show ?thesis by simp
  next
    case seen
    from "4.IH"(2) [OF seen(1) _ seen(2,3)] show ?thesis by simp
  next
    case (incompatible fragment)
    from "4.IH"(3) [OF incompatible(1) _ incompatible(2,3,4,5)] show ?thesis by simp
  next
    case (expanded fragment children visited' grouped')
    from expanded(6) have "keepsEntries groupedFields grouped'"
      by (rule keepsEntries_mergeChildFields)
    moreover from "4.IH"(5) [OF expanded(1) _ expanded(2,3,4,5) refl expanded(6,7)]
    have "keepsEntries grouped' g'" by simp
    ultimately show ?thesis by (rule keepsEntries_trans)
  qed
next
  case (5 ev reqCtx selSet satisfies visited groupedFields)
  then show ?case by simp
qed

lemma indexOfAlias_Some:
  "indexOfAlias c name = Some i \<Longrightarrow> i < length c \<and> Alias (c ! i) = name"
  by (induction c arbitrary: i) (auto split: if_splits)

lemma indexOfAlias_None: "indexOfAlias c name = None \<longleftrightarrow> name \<notin> Alias ` set c"
  by (induction c) auto

lemma indexOfAlias_first:
  "i < length c \<Longrightarrow> Alias (c ! i) = name \<Longrightarrow> \<forall>j<i. Alias (c ! j) \<noteq> name \<Longrightarrow>
   indexOfAlias c name = Some i"
proof (induction c arbitrary: i)
  case Nil
  then show ?case by simp
next
  case (Cons x c)
  show ?case
  proof (cases i)
    case 0
    with Cons.prems show ?thesis by simp
  next
    case (Suc n)
    with Cons.prems have "Alias x \<noteq> name" by auto
    moreover from Suc Cons.prems have "indexOfAlias c name = Some n"
      by (intro Cons.IH) auto
    ultimately show ?thesis using Suc by simp
  qed
qed

lemma indexOfAlias_cong:
  "map Alias c = map Alias c' \<Longrightarrow> indexOfAlias c name = indexOfAlias c' name"
proof (induction c arbitrary: c')
  case Nil
  then show ?case by simp
next
  case (Cons x c)
  then obtain y d where "c' = y # d" by (cases c') auto
  with Cons show ?case by auto
qed

lemma filter_update_other:
  "i < length c \<Longrightarrow> \<not> P (c ! i) \<Longrightarrow> \<not> P x \<Longrightarrow> filter P (c[i := x]) = filter P c"
proof (induction c arbitrary: i)
  case Nil
  then show ?case by simp
next
  case (Cons y c)
  then show ?case by (cases i) auto
qed

lemma filter_update_first:
  "indexOfAlias c k = Some i \<Longrightarrow> Alias x = k \<Longrightarrow>
   \<exists>rest. filter (\<lambda>cf. Alias cf = k) c = (c ! i) # rest
        \<and> filter (\<lambda>cf. Alias cf = k) (c[i := x]) = x # rest"
proof (induction c arbitrary: i)
  case Nil
  then show ?case by simp
next
  case (Cons y c)
  show ?case
  proof (cases "Alias y = k")
    case True
    with Cons.prems show ?thesis by simp
  next
    case False
    with Cons.prems obtain n where n: "indexOfAlias c k = Some n" "i = Suc n"
      by auto
    from Cons.IH [OF n(1) Cons.prems(2)] False n(2) show ?thesis by simp
  qed
qed

lemma keyed_appendSelections_other:
  assumes "getOrCreateField g al creator = Inr (c, i)"
    and "\<And>f. creator () = Inr f \<Longrightarrow> Alias f = al"
    and "al \<noteq> k"
  shows "filter (\<lambda>cf. Alias cf = k) (appendSelections c i sels) = filter (\<lambda>cf. Alias cf = k) g"
proof (cases "indexOfAlias g al")
  case None
  with assms(1) obtain f where f: "creator () = Inr f" "c = g @ [f]" "i = length g"
    by (auto simp: getOrCreateField_def split: sum.splits)
  with assms(2,3) show ?thesis by (simp add: appendSelections_def)
next
  case (Some j)
  with assms(1) have c: "c = g" "i = j" by (simp_all add: getOrCreateField_def)
  from Some have "j < length g" "Alias (g ! j) = al" by (simp_all add: indexOfAlias_Some)
  with assms(3) c show ?thesis
    by (simp add: appendSelections_def filter_update_other)
qed

lemma newCollectedField_header:
  "newCollectedField ev vars al nm arguments = Inr f \<Longrightarrow>
   Alias f = al \<and> Name f = nm \<and> Selections f = []"
  by (auto simp: newCollectedField_def split: if_splits sum.splits)

lemma other_fields_keep:
  "\<forall>s \<in> set xs. otherField k s \<Longrightarrow>
   collectFields_loop ev reqCtx xs satisfies visited g = Inr (g', v') \<Longrightarrow>
   filter (\<lambda>cf. Alias cf = k) g' = filter (\<lambda>cf. Alias cf = k) g"
proof (induction xs arbitrary: g)
  case Nil
  then show ?case by simp
next
  case (Cons s xs)
  from Cons.prems(1) obtain al nm arguments directives selectionSet where
    s: "s = Field al nm arguments directives selectionSet" and al: "al \<noteq> k"
    by (cases s) auto
  from Cons.prems(1) have rest: "\<forall>s \<in> set xs. otherField k s" by simp
  from Cons.prems(2) [unfolded s] show ?case
  proof (cases rule: loop_Field_cases)
    case skipped
    from Cons.IH [OF rest skipped(2)] show ?thesis .
  next
    case (merged c i)
    from Cons.IH [OF rest merged(3)]
    have "filter (\<lambda>cf. Alias cf = k) g'
          = filter (\<lambda>cf. Alias cf = k) (appendSelections c i selectionSet)" .
    also have "\<dots> = filter (\<lambda>cf. Alias cf = k) g"
      using merged(2) _ al
      by (rule keyed_appendSelections_other) (simp add: newCollectedField_header)
    finally show ?thesis .
  qed
qed

lemma loop_Field_included:
  assumes "shouldIncludeNode ev directives (Variables reqCtx) = Inr True"
    and "getOrCreateField g al (\<lambda>_. newCollectedField ev (Variables reqCtx) al nm arguments)
           = Inr (c, i)"
  shows "collectFields_loop ev reqCtx (Field al nm arguments directives selectionSet # selSet)
           satisfies visited g
         = collectFields_loop ev reqCtx selSet satisfies visited
             (appendSelections c i selectionSet)"
  using assms by simp

lemma loop_FragmentSpread_seen:
  assumes "shouldIncludeNode ev directives (Variables reqCtx) = Inr True"
    and "fragmentName \<in> visited"
  shows "collectFields_loop ev reqCtx (FragmentSpread fragmentName directives # selSet)
           satisfies visited g
         = collectFields_loop ev reqCtx selSet satisfies visited g"
  using assms by simp

lemma loop_FragmentSpread_expanded:
  assumes "shouldIncludeNode ev directives (Variables reqCtx) = Inr True"
    and "fragmentName \<notin> visited"
    and "FragmentDefinitionList_ForName (Fragments reqCtx) fragmentName = Some fragment"
    and "frag_TypeCondition fragment \<in> set satisfies"
    and "collectFields_loop ev reqCtx (frag_SelectionSet fragment) satisfies
           (insert fragmentName visited) [] = Inr (children, visited')"
    and "mergeChildFields g children = Inr grouped'"
  shows "collectFields_loop ev reqCtx (FragmentSpread fragmentName directives # selSet)
           satisfies visited g
         = collectFields_loop ev reqCtx selSet satisfies visited' grouped'"
  using assms by (simp add: instanceOf_iff)

lemma getOrCreateField_first:
  "getOrCreateField [] al (\<lambda>_. newCollectedField ev vars al nm [])
   = Inr ([\<lparr>Alias = al, Name = nm, Args = None, Selections = []\<rparr>], 0)"
  by (simp add: getOrCreateField_def newCollectedField_def)

lemma loop_spread_marks:
  assumes "collectFields_loop ev reqCtx (xs @ FragmentSpread n d # ys) satisfies visited g
             = Inr (g', v')"
    and inc: "shouldIncludeNode ev d (Variables reqCtx) = Inr True"
  shows "n \<in> v'"
proof -
  from assms(1) obtain g1 v1 where
    one: "collectFields_loop ev reqCtx (FragmentSpread n d # ys) satisfies v1 g1 = Inr (g', v')"
    by (auto simp: loop_append [of _ _ xs] split: sum.splits)
  then show ?thesis
  proof (cases rule: loop_FragmentSpread_cases)
    case skipped
    with inc show ?thesis by simp
  next
    case seen
    from loop_visited_mono [OF seen(3)] seen(2) show ?thesis by blast
  next
    case (incompatible fragment)
    from loop_visited_mono [OF incompatible(5)] show ?thesis by blast
  next
    case (expanded fragment children visited' grouped')
    from loop_visited_mono [OF expanded(5)] loop_visited_mono [OF expanded(7)]
    show ?thesis by blast
  qed
qed

lemma loop_spread_seen_noop:
  assumes "\<And>g1 v1. collectFields_loop ev reqCtx xs satisfies visited g = Inr (g1, v1)
             \<Longrightarrow> n \<in> v1"
    and inc: "shouldIncludeNode ev d (Variables reqCtx) = Inr True"
  shows "collectFields_loop ev reqCtx (xs @ FragmentSpread n d # ys) satisfies visited g
         = collectFields_loop ev reqCtx (xs @ ys) satisfies visited g"
proof (cases "collectFields_loop ev reqCtx xs satisfies visited g")
  case (Inl e)
  then show ?thesis by (simp add: loop_append [of _ _ xs])
next
  case (Inr r)
  obtain g1 v1 where r: "r = (g1, v1)" by (cases r)
  with Inr assms(1) have "n \<in> v1" by simp
  with Inr r inc show ?thesis by (simp add: loop_append [of _ _ xs])
qed

lemma mergeChildFields_total: "\<exists>g'. mergeChildFields g children = Inr g'"
proof (induction children arbitrary: g)
  case Nil
  show ?case by simp
next
  case (Cons child children)
  obtain c i where "getOrCreateField g (Name child) (\<lambda>_. Inr child) = Inr (c, i)"
    by (cases "indexOfAlias g (Name child)") (simp_all add: getOrCreateField_def)
  with Cons.IH [of "appendSelections c i (Selections child)"] show ?case by simp
qed

section \<open>Merging by response key\<close>

text \<open>
  C1 does not hold of the code. A field that comes out of a fragment is looked up in the
  outer result by its \<^emph>\<open>name\<close>, while \<^verbatim>\<open>getOrCreateField\<close> compares that with the
  \<^emph>\<open>aliases\<close> of the entries, as the field case does with \<^verbatim>\<open>sel.Alias\<close>. For the query
  \<^verbatim>\<open>{ a: foo { x }  ... on T { a: foo { y } } }\<close> the lookup of \<open>foo\<close> finds no entry of
  alias \<open>a\<close> and a second entry with the response key \<open>a\<close> is appended.
\<close>

theorem alias_uniqueness_violated:
  "CollectFields sampleEvaluator emptyDoc
     [Field ''a'' ''foo'' [] [] [leaf ''x''],
      InlineFragment ''T'' [] [Field ''a'' ''foo'' [] [] [leaf ''y'']]] [''T'']
   = Inr [\<lparr>Alias = ''a'', Name = ''foo'', Args = None, Selections = [leaf ''x'']\<rparr>,
          \<lparr>Alias = ''a'', Name = ''foo'', Args = None,
             Selections = [leaf ''y'', leaf ''y'']\<rparr>]"
  by (simp add: collect_defs emptyDoc_def)

text \<open>
  C2 does not hold of the code, in two ways. A contributed field that finds no entry is
  inserted with its child selections and then receives them once more through the
  returned pointer, so the new entry holds them twice (first equation). And the entry is
  looked up by the contributed field's name, not by its response key: the contribution
  \<^verbatim>\<open>a: foo { z }\<close> is merged into the entry of the response key \<open>foo\<close>, a different field,
  and no entry for \<open>a\<close> exists (second equation).
\<close>

theorem fragment_contribution_not_merged_by_key:
  "CollectFields sampleEvaluator emptyDoc
     [InlineFragment ''T'' [] [Field ''x'' ''x'' [] [] [leaf ''y'']]] [''T'']
   = Inr [\<lparr>Alias = ''x'', Name = ''x'', Args = None,
             Selections = [leaf ''y'', leaf ''y'']\<rparr>]
   \<and> CollectFields sampleEvaluator emptyDoc
       [Field ''foo'' ''bar'' [] [] [leaf ''x''],
        InlineFragment ''T'' [] [Field ''a'' ''foo'' [] [] [leaf ''z'']]] [''T'']
     = Inr [\<lparr>Alias = ''foo'', Name = ''bar'', Args = None,
               Selections = [leaf ''x'', leaf ''z'']\<rparr>]"
  by (simp add: collect_defs emptyDoc_def)

text \<open>
  C3 does not hold of the code. Two sibling fields of one response key are merged by the
  field case, but a fragment among the siblings undoes the claim through the lookup by
  name of the fragment merge. In \<^verbatim>\<open>{ a: foo { x }  a: foo { y }  ... on T { a: foo { z } } }\<close>
  the result has two entries of the response key \<open>a\<close>, not exactly one (first equation).
  In \<^verbatim>\<open>{ k { x }  ... on T { m: k { z } }  k { y } }\<close> the entry of \<open>k\<close> holds \<open>[x, z, y]\<close>:
  the selections of the field \<open>m\<close>, another response key, stand between those of the
  two occurrences of \<open>k\<close> (second equation).
\<close>

theorem sibling_merge_broken_by_fragment:
  "CollectFields sampleEvaluator emptyDoc
     [Field ''a'' ''foo'' [] [] [leaf ''x''], Field ''a'' ''foo'' [] [] [leaf ''y''],
      InlineFragment ''T'' [] [Field ''a'' ''foo'' [] [] [leaf ''z'']]] [''T'']
   = Inr [\<lparr>Alias = ''a'', Name = ''foo'', Args = None,
             Selections = [leaf ''x'', leaf ''y'']\<rparr>,
          \<lparr>Alias = ''a'', Name = ''foo'', Args = None,
             Selections = [leaf ''z'', leaf ''z'']\<rparr>]
   \<and> CollectFields sampleEvaluator emptyDoc
       [Field ''k'' ''k'' [] [] [leaf ''x''],
        InlineFragment ''T'' [] [Field ''m'' ''k'' [] [] [leaf ''z'']],
        Field ''k'' ''k'' [] [] [leaf ''y'']] [''T'']
     = Inr [\<lparr>Alias = ''k'', Name = ''k'', Args = None,
               Selections = [leaf ''x'', leaf ''z'', leaf ''y'']\<rparr>]"
  by (simp add: collect_defs emptyDoc_def)

text \<open>
  Where every other sibling is a field of another response key, the two occurrences merge
  as the field case intends: a collection that returns has exactly one entry of key \<open>k\<close>,
  created from the first occurrence, and its child selections are the first occurrence's
  selection set followed by the second's.
\<close>

lemma sibling_fields_merge:
  assumes others: "list_all (otherField k) (pre @ mid @ post)"
    and inc1: "shouldIncludeNode ev d1 (Variables reqCtx) = Inr True"
    and inc2: "shouldIncludeNode ev d2 (Variables reqCtx) = Inr True"
    and res: "CollectFields ev reqCtx
                (pre @ Field k n1 args1 d1 ss1 # mid @ Field k n2 args2 d2 ss2 # post)
                satisfies = Inr res"
  shows "\<exists>f. newCollectedField ev (Variables reqCtx) k n1 args1 = Inr f
           \<and> filter (\<lambda>cf. Alias cf = k) res = [f\<lparr>Selections := ss1 @ ss2\<rparr>]"
proof -
  let ?K = "filter (\<lambda>cf. Alias cf = k)"
  from others have o: "\<forall>s \<in> set pre. otherField k s" "\<forall>s \<in> set mid. otherField k s"
    "\<forall>s \<in> set post. otherField k s" by (auto simp: list_all_iff)
  from res obtain vend where
    full: "collectFields_loop ev reqCtx
             (pre @ Field k n1 args1 d1 ss1 # mid @ Field k n2 args2 d2 ss2 # post)
             satisfies {} [] = Inr (res, vend)"
    by (auto simp: CollectFields_loop split: sum.splits)
  then obtain g1 v1 where
    pre: "collectFields_loop ev reqCtx pre satisfies {} [] = Inr (g1, v1)"
    and r1: "collectFields_loop ev reqCtx
               (Field k n1 args1 d1 ss1 # mid @ Field k n2 args2 d2 ss2 # post)
               satisfies v1 g1 = Inr (res, vend)"
    by (auto simp: loop_append [of _ _ pre] split: sum.splits)
  from other_fields_keep [OF o(1) pre] have k1: "?K g1 = []" by simp
  then have fresh: "indexOfAlias g1 k = None"
    by (auto simp: indexOfAlias_None filter_empty_conv)
  from r1 obtain c i where
    goc: "getOrCreateField g1 k (\<lambda>_. newCollectedField ev (Variables reqCtx) k n1 args1)
            = Inr (c, i)"
    and r2: "collectFields_loop ev reqCtx (mid @ Field k n2 args2 d2 ss2 # post)
               satisfies v1 (appendSelections c i ss1) = Inr (res, vend)"
    using inc1 by (cases rule: loop_Field_cases) simp_all
  from goc fresh obtain f where
    f: "newCollectedField ev (Variables reqCtx) k n1 args1 = Inr f"
    and c: "c = g1 @ [f]" "i = length g1"
    by (auto simp: getOrCreateField_def split: sum.splits)
  from f have hdr: "Alias f = k" "Selections f = []"
    by (simp_all add: newCollectedField_header)
  let ?g2 = "appendSelections c i ss1"
  have g2: "?g2 = g1 @ [f\<lparr>Selections := ss1\<rparr>]"
    using hdr by (simp add: c appendSelections_def)
  with k1 hdr have k2: "?K ?g2 = [f\<lparr>Selections := ss1\<rparr>]" by simp
  from r2 obtain g3 v3 where
    mid: "collectFields_loop ev reqCtx mid satisfies v1 ?g2 = Inr (g3, v3)"
    and r3: "collectFields_loop ev reqCtx (Field k n2 args2 d2 ss2 # post)
               satisfies v3 g3 = Inr (res, vend)"
    by (auto simp: loop_append [of _ _ mid] split: sum.splits)
  from other_fields_keep [OF o(2) mid] k2
  have k3: "?K g3 = [f\<lparr>Selections := ss1\<rparr>]" by simp
  then have "f\<lparr>Selections := ss1\<rparr> \<in> set (?K g3)" by simp
  then have "f\<lparr>Selections := ss1\<rparr> \<in> set g3" by simp
  then have "Alias (f\<lparr>Selections := ss1\<rparr>) \<in> Alias ` set g3" by (rule imageI)
  with hdr have "k \<in> Alias ` set g3" by simp
  then obtain j where j: "indexOfAlias g3 k = Some j"
    by (cases "indexOfAlias g3 k") (auto simp: indexOfAlias_None)
  from r3 obtain c' i' where
    goc': "getOrCreateField g3 k (\<lambda>_. newCollectedField ev (Variables reqCtx) k n2 args2)
             = Inr (c', i')"
    and r4: "collectFields_loop ev reqCtx post satisfies v3 (appendSelections c' i' ss2)
               = Inr (res, vend)"
    using inc2 by (cases rule: loop_Field_cases) simp_all
  from goc' j have c': "c' = g3" "i' = j" by (simp_all add: getOrCreateField_def)
  let ?x = "(g3 ! j)\<lparr>Selections := Selections (g3 ! j) @ ss2\<rparr>"
  from j have "Alias ?x = k" by (simp add: indexOfAlias_Some)
  from filter_update_first [OF j this] obtain rest where
    "?K g3 = (g3 ! j) # rest" "?K (g3[j := ?x]) = ?x # rest"
    by blast
  with k3 have "?K (appendSelections c' i' ss2) = [f\<lparr>Selections := ss1 @ ss2\<rparr>]"
    by (simp add: c' appendSelections_def)
  with other_fields_keep [OF o(3) r4] have "?K res = [f\<lparr>Selections := ss1 @ ss2\<rparr>]"
    by simp
  with f show ?thesis by blast
qed


text \<open>
  What the field case does. Let \<open>pre\<close> be processed and no entry have the response key
  \<open>k\<close>, and let an included field of key \<open>k\<close> follow, then any selections \<open>post\<close>. In the
  final result the first entry of key \<open>k\<close> is the one this occurrence appended, with the
  arguments computed from it, and the arguments of the entries that existed before are
  unchanged. A field whose response key already has an entry does not run the creator.
\<close>

lemma arguments_from_first_occurrence:
  assumes pre: "collectFields_loop ev reqCtx pre satisfies visited g = Inr (g1, v1)"
    and fresh: "indexOfAlias g1 k = None"
    and inc: "shouldIncludeNode ev directives (Variables reqCtx) = Inr True"
    and all: "collectFields_loop ev reqCtx
                (pre @ Field k nm arguments directives selectionSet # post)
                satisfies visited g = Inr (g', v')"
  shows "(\<exists>f. newCollectedField ev (Variables reqCtx) k nm arguments = Inr f
            \<and> indexOfAlias g' k = Some (length g1)
            \<and> Name (g' ! length g1) = nm
            \<and> Args (g' ! length g1) = Args f
            \<and> (\<forall>i<length g1. Args (g' ! i) = Args (g1 ! i)))
       \<and> (\<forall>g0 j nm' arguments' selectionSet' rest v0.
            indexOfAlias g0 k = Some j \<longrightarrow>
            collectFields_loop ev reqCtx
              (Field k nm' arguments' directives selectionSet' # rest) satisfies v0 g0
            = collectFields_loop ev reqCtx rest satisfies v0
                (appendSelections g0 j selectionSet'))"
proof
  show "\<forall>g0 j nm' arguments' selectionSet' rest v0.
          indexOfAlias g0 k = Some j \<longrightarrow>
          collectFields_loop ev reqCtx
            (Field k nm' arguments' directives selectionSet' # rest) satisfies v0 g0
          = collectFields_loop ev reqCtx rest satisfies v0
              (appendSelections g0 j selectionSet')"
    using inc by (simp add: getOrCreateField_def)
next
  from all pre have "collectFields_loop ev reqCtx
                       (Field k nm arguments directives selectionSet # post)
                       satisfies v1 g1 = Inr (g', v')"
    by (simp add: loop_append [of _ _ pre])
  then show "\<exists>f. newCollectedField ev (Variables reqCtx) k nm arguments = Inr f
            \<and> indexOfAlias g' k = Some (length g1)
            \<and> Name (g' ! length g1) = nm
            \<and> Args (g' ! length g1) = Args f
            \<and> (\<forall>i<length g1. Args (g' ! i) = Args (g1 ! i))"
  proof (cases rule: loop_Field_cases)
    case skipped
    with inc show ?thesis by simp
  next
    case (merged c i)
    from merged(2) fresh obtain f where
      f: "newCollectedField ev (Variables reqCtx) k nm arguments = Inr f"
      and c: "c = g1 @ [f]"
      by (auto simp: getOrCreateField_def split: sum.splits)
    from f have hdr: "Alias f = k" "Name f = nm"
      by (auto simp: newCollectedField_def split: if_splits sum.splits)
    have "keepsEntries c (appendSelections c i selectionSet)"
      by (rule keepsEntries_appendSelections)
    moreover from merged(3) have "keepsEntries (appendSelections c i selectionSet) g'"
      by (rule keepsEntries_loop)
    ultimately have keep: "keepsEntries (g1 @ [f]) g'"
      unfolding c by (rule keepsEntries_trans)
    then have len: "length g1 < length g'" by (auto dest: keepsEntries_length)
    from keepsEntries_nth [OF keep, of "length g1"]
    have new: "entryHeader (g' ! length g1) = entryHeader f" by simp
    have old: "entryHeader (g' ! j) = entryHeader (g1 ! j)" if "j < length g1" for j
      using keepsEntries_nth [OF keep, of j] that by (simp add: nth_append)
    from fresh have "\<forall>j<length g1. Alias (g1 ! j) \<noteq> k"
      by (auto simp: indexOfAlias_None)
    with old have "\<forall>j<length g1. Alias (g' ! j) \<noteq> k"
      by (auto simp: entryHeader_def)
    with len new hdr have "indexOfAlias g' k = Some (length g1)"
      by (intro indexOfAlias_first) (auto simp: entryHeader_def)
    with f new old hdr show ?thesis by (auto simp: entryHeader_def)
  qed
qed

text \<open>
  An occurrence inside a fragment is collected by a nested call that starts from an empty
  result, so its arguments are evaluated even when the outer result already has an entry
  of its response key: a literal that fails to evaluate aborts the collection.
\<close>

lemma later_occurrence_in_fragment_evaluated:
  assumes "Kind v \<noteq> Variable" and "ev v vars = Inl err"
  shows "CollectFields ev \<lparr>Variables = vars, Fragments = []\<rparr>
           [Field k nm [] [] [],
            InlineFragment typeCondition []
              [Field k nm [\<lparr>arg_Name = an, arg_Value = v\<rparr>] [] []]]
           [typeCondition]
         = Inl (ValueError err)"
  using assms
  by (simp add: CollectFields_def collectFields_def shouldIncludeNode_Nil
                getOrCreateField_def newCollectedField_def appendSelections_def)

section \<open>Type conditions of inline fragments\<close>

text \<open>
  C6. An inline fragment whose type condition is not among the satisfied types is skipped
  with its whole subtree: wherever it stands in a selection set, and whatever has been
  collected or visited before, the collection gives the result it gives without the
  fragment. Its directives are evaluated first, so they are assumed to be well formed.
\<close>

theorem inline_fragment_type_condition_narrowing:
  assumes "typeCondition \<notin> set satisfies"
    and "shouldIncludeNode ev directives (Variables reqCtx) = Inr b"
  shows "collectFields_loop ev reqCtx
           (pre @ InlineFragment typeCondition directives selectionSet # post)
           satisfies visited g
         = collectFields_loop ev reqCtx (pre @ post) satisfies visited g
       \<and> CollectFields ev reqCtx
           (pre @ InlineFragment typeCondition directives selectionSet # post) satisfies
         = CollectFields ev reqCtx (pre @ post) satisfies"
proof -
  have step: "collectFields_loop ev reqCtx
                (InlineFragment typeCondition directives selectionSet # post) satisfies v' g'
              = collectFields_loop ev reqCtx post satisfies v' g'" for v' g'
    using assms by (simp add: instanceOf_iff)
  have "collectFields_loop ev reqCtx
           (pre @ InlineFragment typeCondition directives selectionSet # post)
           satisfies v0 g0
         = collectFields_loop ev reqCtx (pre @ post) satisfies v0 g0" for v0 g0
    by (simp only: loop_append [of _ _ pre] step)
  then show ?thesis by (simp only: CollectFields_loop simp_thms)
qed


theorem inline_fragment_type_condition_narrowing_witness:
  "''Dog'' \<notin> set [''Cat'']
   \<and> shouldIncludeNode sampleEvaluator [] (Variables \<lparr>Variables = Map.empty, Fragments = []\<rparr>)
       = Inr True
   \<and> CollectFields sampleEvaluator \<lparr>Variables = Map.empty, Fragments = []\<rparr>
         ([Field ''name'' ''name'' [] [] []]
          @ InlineFragment ''Dog'' [] [Field ''barks'' ''barks'' [] [] []] # [])
         [''Cat'']
       = Inr [\<lparr>Alias = ''name'', Name = ''name'', Args = None, Selections = []\<rparr>]"
proof (intro conjI)
  show a: "''Dog'' \<notin> set [''Cat'']" by simp
  show b: "shouldIncludeNode sampleEvaluator []
             (Variables \<lparr>Variables = Map.empty, Fragments = []\<rparr>) = Inr True"
    by (simp add: collect_defs)
  have "CollectFields sampleEvaluator \<lparr>Variables = Map.empty, Fragments = []\<rparr>
          ([Field ''name'' ''name'' [] [] []]
           @ InlineFragment ''Dog'' [] [Field ''barks'' ''barks'' [] [] []] # [])
          [''Cat'']
        = CollectFields sampleEvaluator \<lparr>Variables = Map.empty, Fragments = []\<rparr>
            ([Field ''name'' ''name'' [] [] []] @ []) [''Cat'']"
    using inline_fragment_type_condition_narrowing [OF a b] by (rule conjunct2)
  also have "\<dots> = Inr [\<lparr>Alias = ''name'', Name = ''name'', Args = None, Selections = []\<rparr>]"
    by (simp add: collect_defs)
  finally show "CollectFields sampleEvaluator \<lparr>Variables = Map.empty, Fragments = []\<rparr>
         ([Field ''name'' ''name'' [] [] []]
          @ InlineFragment ''Dog'' [] [Field ''barks'' ''barks'' [] [] []] # [])
         [''Cat'']
       = Inr [\<lparr>Alias = ''name'', Name = ''name'', Args = None, Selections = []\<rparr>]" .
qed

text \<open>
  C10. An inline fragment without type condition carries the empty string, and the empty
  string is tested like any other condition. \<^verbatim>\<open>instanceOf\<close> holds for it exactly when
  the empty string is one of the satisfied types; when it is not, the fragment is skipped
  with its subtree; and the fragment behaves as a fragment on any type \<open>typeCondition\<close>
  of the same membership in \<open>satisfies\<close> does.
\<close>

theorem empty_type_condition_not_special:
  assumes "shouldIncludeNode ev directives (Variables reqCtx) = Inr b"
  shows "(instanceOf '''' satisfies \<longleftrightarrow> '''' \<in> set satisfies)
       \<and> ('''' \<notin> set satisfies \<longrightarrow>
            collectFields_loop ev reqCtx (pre @ InlineFragment '''' directives selectionSet # post)
              satisfies visited g
            = collectFields_loop ev reqCtx (pre @ post) satisfies visited g)
       \<and> ((typeCondition \<in> set satisfies \<longleftrightarrow> '''' \<in> set satisfies) \<longrightarrow>
            collectFields_loop ev reqCtx (pre @ InlineFragment '''' directives selectionSet # post)
              satisfies visited g
            = collectFields_loop ev reqCtx
                (pre @ InlineFragment typeCondition directives selectionSet # post)
                satisfies visited g)"
proof (intro conjI impI)
  show "instanceOf '''' satisfies \<longleftrightarrow> '''' \<in> set satisfies"
    by (rule instanceOf_iff)
next
  assume absent: "'''' \<notin> set satisfies"
  have "collectFields_loop ev reqCtx (InlineFragment '''' directives selectionSet # post)
          satisfies v' g'
        = collectFields_loop ev reqCtx post satisfies v' g'" for v' g'
    using assms absent by (simp add: instanceOf_iff)
  then show "collectFields_loop ev reqCtx
               (pre @ InlineFragment '''' directives selectionSet # post) satisfies visited g
             = collectFields_loop ev reqCtx (pre @ post) satisfies visited g"
    by (simp only: loop_append [of _ _ pre])
next
  assume same: "typeCondition \<in> set satisfies \<longleftrightarrow> '''' \<in> set satisfies"
  have "collectFields_loop ev reqCtx (InlineFragment '''' directives selectionSet # post)
          satisfies v' g'
        = collectFields_loop ev reqCtx
            (InlineFragment typeCondition directives selectionSet # post) satisfies v' g'"
    for v' g'
  proof -
    have "instanceOf '''' satisfies = instanceOf typeCondition satisfies"
      using same by (simp add: instanceOf_iff)
    then show ?thesis
      unfolding collectFields_loop.simps by (rule arg_cong)
  qed
  then show "collectFields_loop ev reqCtx
               (pre @ InlineFragment '''' directives selectionSet # post) satisfies visited g
             = collectFields_loop ev reqCtx
                 (pre @ InlineFragment typeCondition directives selectionSet # post)
                 satisfies visited g"
    by (simp only: loop_append [of _ _ pre])
qed

theorem empty_type_condition_not_special_witness:
  "shouldIncludeNode sampleEvaluator []
     (Variables \<lparr>Variables = Map.empty, Fragments = []\<rparr>) = Inr True
   \<and> '''' \<notin> set [''Dog'', ''Animal'']
   \<and> collectFields_loop sampleEvaluator \<lparr>Variables = Map.empty, Fragments = []\<rparr>
         ([] @ InlineFragment '''' [] [Field ''name'' ''name'' [] [] []] # [])
         [''Dog'', ''Animal''] {} []
       = Inr ([], {})"
proof (intro conjI)
  show a: "shouldIncludeNode sampleEvaluator []
             (Variables \<lparr>Variables = Map.empty, Fragments = []\<rparr>) = Inr True"
    by (simp add: collect_defs)
  show b: "'''' \<notin> set [''Dog'', ''Animal'']" by simp
  have "collectFields_loop sampleEvaluator \<lparr>Variables = Map.empty, Fragments = []\<rparr>
          ([] @ InlineFragment '''' [] [Field ''name'' ''name'' [] [] []] # [])
          [''Dog'', ''Animal''] {} []
        = collectFields_loop sampleEvaluator \<lparr>Variables = Map.empty, Fragments = []\<rparr>
            ([] @ []) [''Dog'', ''Animal''] {} []"
    using empty_type_condition_not_special [OF a] b by blast
  also have "\<dots> = Inr ([], {})" by simp
  finally show "collectFields_loop sampleEvaluator \<lparr>Variables = Map.empty, Fragments = []\<rparr>
         ([] @ InlineFragment '''' [] [Field ''name'' ''name'' [] [] []] # [])
         [''Dog'', ''Animal''] {} []
       = Inr ([], {})" .
qed

section \<open>The guard on fragment spreads\<close>

text \<open>
  C4. The \<open>visited\<close> set is one set for the whole invocation. Let the selections \<open>pre\<close>
  be processed, nested fragments included, leaving the result \<open>g1\<close> and the set \<open>v1\<close>,
  and let \<open>directives\<close> include their node.
  \<^item> The set only grows, and an included spread of a name in \<open>v1\<close> contributes nothing:
    the collection is the collection without it.
  \<^item> After an included spread its name is in the set, also when the fragment's type
    condition is not satisfied and nothing is collected.
  \<^item> The nested call of an inline fragment starts from \<open>v1\<close>, the nested call of a spread
    from \<open>v1\<close> with the fragment's name added, and the selections after the fragment
    continue from the set the nested call returned.
  \<^item> So marks made in a nested call reach the later siblings: when a fragment \<open>A\<close> that
    is expanded, or an applicable inline fragment, spreads \<open>fragmentName\<close> in its
    selection set, a later spread of \<open>fragmentName\<close> at the outer level contributes
    nothing, whatever stands between them.
  \<^item> And marks made outside reach the nested call: a spread of a name in \<open>v1\<close> inside an
    inline fragment contributes nothing.
\<close>

theorem fragment_spread_expanded_at_most_once:
  assumes pre: "collectFields_loop ev reqCtx pre satisfies visited g = Inr (g1, v1)"
    and inc: "shouldIncludeNode ev directives (Variables reqCtx) = Inr True"
  shows "visited \<subseteq> v1
       \<and> (fragmentName \<in> v1 \<longrightarrow>
            collectFields_loop ev reqCtx (pre @ FragmentSpread fragmentName directives # post)
              satisfies visited g
            = collectFields_loop ev reqCtx (pre @ post) satisfies visited g)
       \<and> (\<forall>g2 v2.
            collectFields_loop ev reqCtx (pre @ [FragmentSpread fragmentName directives])
              satisfies visited g = Inr (g2, v2)
            \<longrightarrow> fragmentName \<in> v2 \<and> v1 \<subseteq> v2)
       \<and> (\<forall>fragment.
            fragmentName \<notin> v1
            \<and> FragmentDefinitionList_ForName (Fragments reqCtx) fragmentName = Some fragment
            \<and> \<not> instanceOf (frag_TypeCondition fragment) satisfies
            \<longrightarrow> collectFields_loop ev reqCtx (pre @ [FragmentSpread fragmentName directives])
                  satisfies visited g
                = Inr (g1, insert fragmentName v1))
       \<and> (\<forall>typeCondition d selectionSet children vin.
            shouldIncludeNode ev d (Variables reqCtx) = Inr True
            \<and> typeCondition \<in> set satisfies
            \<and> collectFields_loop ev reqCtx selectionSet satisfies v1 [] = Inr (children, vin)
            \<longrightarrow> (\<exists>g2. mergeChildFields g1 children = Inr g2
                   \<and> collectFields_loop ev reqCtx
                       (pre @ InlineFragment typeCondition d selectionSet # post)
                       satisfies visited g
                     = collectFields_loop ev reqCtx post satisfies vin g2))
       \<and> (\<forall>fragment children vin.
            fragmentName \<notin> v1
            \<and> FragmentDefinitionList_ForName (Fragments reqCtx) fragmentName = Some fragment
            \<and> frag_TypeCondition fragment \<in> set satisfies
            \<and> collectFields_loop ev reqCtx (frag_SelectionSet fragment) satisfies
                (insert fragmentName v1) [] = Inr (children, vin)
            \<longrightarrow> (\<exists>g2. mergeChildFields g1 children = Inr g2
                   \<and> collectFields_loop ev reqCtx
                       (pre @ FragmentSpread fragmentName directives # post)
                       satisfies visited g
                     = collectFields_loop ev reqCtx post satisfies vin g2))
       \<and> (\<forall>A dA fragA preA dB postA mid.
            shouldIncludeNode ev dA (Variables reqCtx) = Inr True
            \<and> A \<notin> v1
            \<and> FragmentDefinitionList_ForName (Fragments reqCtx) A = Some fragA
            \<and> frag_TypeCondition fragA \<in> set satisfies
            \<and> frag_SelectionSet fragA = preA @ FragmentSpread fragmentName dB # postA
            \<and> shouldIncludeNode ev dB (Variables reqCtx) = Inr True
            \<longrightarrow> collectFields_loop ev reqCtx
                  (pre @ FragmentSpread A dA # mid @ FragmentSpread fragmentName directives # post)
                  satisfies visited g
                = collectFields_loop ev reqCtx (pre @ FragmentSpread A dA # mid @ post)
                    satisfies visited g)
       \<and> (\<forall>typeCondition d preI dB postI mid.
            shouldIncludeNode ev d (Variables reqCtx) = Inr True
            \<and> typeCondition \<in> set satisfies
            \<and> shouldIncludeNode ev dB (Variables reqCtx) = Inr True
            \<longrightarrow> collectFields_loop ev reqCtx
                  (pre @ InlineFragment typeCondition d
                           (preI @ FragmentSpread fragmentName dB # postI)
                     # mid @ FragmentSpread fragmentName directives # post)
                  satisfies visited g
                = collectFields_loop ev reqCtx
                    (pre @ InlineFragment typeCondition d
                             (preI @ FragmentSpread fragmentName dB # postI)
                       # mid @ post)
                    satisfies visited g)
       \<and> (\<forall>typeCondition d preI postI.
            fragmentName \<in> v1
            \<longrightarrow> collectFields_loop ev reqCtx
                  (pre @ InlineFragment typeCondition d
                           (preI @ FragmentSpread fragmentName directives # postI) # post)
                  satisfies visited g
                = collectFields_loop ev reqCtx
                    (pre @ InlineFragment typeCondition d (preI @ postI) # post)
                    satisfies visited g)"
proof -
  have mono: "visited \<subseteq> v1" using pre by (rule loop_visited_mono)
  have again: "collectFields_loop ev reqCtx (pre @ FragmentSpread fragmentName directives # post)
                 satisfies visited g
               = collectFields_loop ev reqCtx (pre @ post) satisfies visited g"
    if seen: "fragmentName \<in> v1"
  proof -
    have "collectFields_loop ev reqCtx (FragmentSpread fragmentName directives # post)
            satisfies v1 g1
          = collectFields_loop ev reqCtx post satisfies v1 g1"
      using inc seen by simp
    then show ?thesis by (simp add: loop_append [of _ _ pre] pre)
  qed
  have marked: "fragmentName \<in> v2 \<and> v1 \<subseteq> v2"
    if all: "collectFields_loop ev reqCtx (pre @ [FragmentSpread fragmentName directives])
               satisfies visited g = Inr (g2, v2)" for g2 v2
  proof -
    from all have one: "collectFields_loop ev reqCtx [FragmentSpread fragmentName directives]
                          satisfies v1 g1 = Inr (g2, v2)"
      by (simp add: loop_append [of _ _ pre] pre)
    from one have "v1 \<subseteq> v2" by (rule loop_visited_mono)
    moreover from one have "fragmentName \<in> v2"
    proof (cases rule: loop_FragmentSpread_cases)
      case skipped
      with inc show ?thesis by simp
    next
      case seen
      then show ?thesis by simp
    next
      case (incompatible fragment)
      then show ?thesis by auto
    next
      case (expanded fragment children visited' grouped')
      then have "insert fragmentName v1 \<subseteq> visited'" by (auto dest: loop_visited_mono)
      with expanded show ?thesis by auto
    qed
    ultimately show ?thesis by simp
  qed
  have incompatible: "collectFields_loop ev reqCtx (pre @ [FragmentSpread fragmentName directives])
                        satisfies visited g = Inr (g1, insert fragmentName v1)"
    if "fragmentName \<notin> v1
          \<and> FragmentDefinitionList_ForName (Fragments reqCtx) fragmentName = Some fragment
          \<and> \<not> instanceOf (frag_TypeCondition fragment) satisfies" for fragment
  proof -
    from that have "collectFields_loop ev reqCtx [FragmentSpread fragmentName directives]
                      satisfies v1 g1 = Inr (g1, insert fragmentName v1)"
      using inc by simp
    then show ?thesis by (simp add: loop_append [of _ _ pre] pre)
  qed
  have inline_threads:
    "\<exists>g2. mergeChildFields g1 children = Inr g2
          \<and> collectFields_loop ev reqCtx
              (pre @ InlineFragment typeCondition d selectionSet # post) satisfies visited g
            = collectFields_loop ev reqCtx post satisfies vin g2"
    if "shouldIncludeNode ev d (Variables reqCtx) = Inr True
          \<and> typeCondition \<in> set satisfies
          \<and> collectFields_loop ev reqCtx selectionSet satisfies v1 [] = Inr (children, vin)"
    for typeCondition d selectionSet children vin
  proof -
    obtain g2 where g2: "mergeChildFields g1 children = Inr g2"
      using mergeChildFields_total by blast
    with that have "collectFields_loop ev reqCtx
                      (InlineFragment typeCondition d selectionSet # post) satisfies v1 g1
                    = collectFields_loop ev reqCtx post satisfies vin g2"
      by (simp add: instanceOf_iff)
    with g2 show ?thesis by (simp add: loop_append [of _ _ pre] pre)
  qed
  have spread_threads:
    "\<exists>g2. mergeChildFields g1 children = Inr g2
          \<and> collectFields_loop ev reqCtx
              (pre @ FragmentSpread fragmentName directives # post) satisfies visited g
            = collectFields_loop ev reqCtx post satisfies vin g2"
    if "fragmentName \<notin> v1
          \<and> FragmentDefinitionList_ForName (Fragments reqCtx) fragmentName = Some fragment
          \<and> frag_TypeCondition fragment \<in> set satisfies
          \<and> collectFields_loop ev reqCtx (frag_SelectionSet fragment) satisfies
              (insert fragmentName v1) [] = Inr (children, vin)"
    for fragment children vin
  proof -
    obtain g2 where g2: "mergeChildFields g1 children = Inr g2"
      using mergeChildFields_total by blast
    with that inc have "collectFields_loop ev reqCtx
                          (FragmentSpread fragmentName directives # post) satisfies v1 g1
                        = collectFields_loop ev reqCtx post satisfies vin g2"
      by (simp add: instanceOf_iff)
    with g2 show ?thesis by (simp add: loop_append [of _ _ pre] pre)
  qed
  have through_fragment:
    "collectFields_loop ev reqCtx
       (pre @ FragmentSpread A dA # mid @ FragmentSpread fragmentName directives # post)
       satisfies visited g
     = collectFields_loop ev reqCtx (pre @ FragmentSpread A dA # mid @ post) satisfies visited g"
    if h: "shouldIncludeNode ev dA (Variables reqCtx) = Inr True
          \<and> A \<notin> v1
          \<and> FragmentDefinitionList_ForName (Fragments reqCtx) A = Some fragA
          \<and> frag_TypeCondition fragA \<in> set satisfies
          \<and> frag_SelectionSet fragA = preA @ FragmentSpread fragmentName dB # postA
          \<and> shouldIncludeNode ev dB (Variables reqCtx) = Inr True"
    for A dA fragA preA dB postA mid
  proof -
    have reached: "fragmentName \<in> v2"
      if "collectFields_loop ev reqCtx (pre @ FragmentSpread A dA # mid) satisfies visited g
            = Inr (g2, v2)" for g2 v2
    proof -
      from that have "collectFields_loop ev reqCtx (FragmentSpread A dA # mid) satisfies v1 g1
                        = Inr (g2, v2)"
        by (simp add: loop_append [of _ _ pre] pre)
      then show ?thesis
      proof (cases rule: loop_FragmentSpread_cases)
        case skipped
        with h show ?thesis by simp
      next
        case seen
        with h show ?thesis by simp
      next
        case (incompatible fragment)
        with h show ?thesis by (simp add: instanceOf_iff)
      next
        case (expanded fragment children visited' grouped')
        with h have "collectFields_loop ev reqCtx
                       (preA @ FragmentSpread fragmentName dB # postA) satisfies
                       (insert A v1) [] = Inr (children, visited')"
          by simp
        with h have "fragmentName \<in> visited'" by (blast intro: loop_spread_marks)
        with loop_visited_mono [OF expanded(7)] show ?thesis by blast
      qed
    qed
    have "collectFields_loop ev reqCtx
            ((pre @ FragmentSpread A dA # mid) @ FragmentSpread fragmentName directives # post)
            satisfies visited g
          = collectFields_loop ev reqCtx ((pre @ FragmentSpread A dA # mid) @ post)
              satisfies visited g"
      using reached inc by (rule loop_spread_seen_noop)
    then show ?thesis by simp
  qed
  have through_inline:
    "collectFields_loop ev reqCtx
       (pre @ InlineFragment typeCondition d (preI @ FragmentSpread fragmentName dB # postI)
          # mid @ FragmentSpread fragmentName directives # post)
       satisfies visited g
     = collectFields_loop ev reqCtx
         (pre @ InlineFragment typeCondition d (preI @ FragmentSpread fragmentName dB # postI)
            # mid @ post)
         satisfies visited g"
    if h: "shouldIncludeNode ev d (Variables reqCtx) = Inr True
          \<and> typeCondition \<in> set satisfies
          \<and> shouldIncludeNode ev dB (Variables reqCtx) = Inr True"
    for typeCondition d preI dB postI mid
  proof -
    let ?node = "InlineFragment typeCondition d (preI @ FragmentSpread fragmentName dB # postI)"
    have reached: "fragmentName \<in> v2"
      if "collectFields_loop ev reqCtx (pre @ ?node # mid) satisfies visited g = Inr (g2, v2)"
      for g2 v2
    proof -
      from that have "collectFields_loop ev reqCtx (?node # mid) satisfies v1 g1 = Inr (g2, v2)"
        by (simp add: loop_append [of _ _ pre] pre)
      then show ?thesis
      proof (cases rule: loop_InlineFragment_cases)
        case (skipped b)
        with h show ?thesis by (simp add: instanceOf_iff)
      next
        case (expanded b children visited' grouped')
        from expanded(3) h have "fragmentName \<in> visited'"
          by (blast intro: loop_spread_marks)
        with loop_visited_mono [OF expanded(5)] show ?thesis by blast
      qed
    qed
    have "collectFields_loop ev reqCtx
            ((pre @ ?node # mid) @ FragmentSpread fragmentName directives # post)
            satisfies visited g
          = collectFields_loop ev reqCtx ((pre @ ?node # mid) @ post) satisfies visited g"
      using reached inc by (rule loop_spread_seen_noop)
    then show ?thesis by simp
  qed
  have into_inline:
    "collectFields_loop ev reqCtx
       (pre @ InlineFragment typeCondition d
                (preI @ FragmentSpread fragmentName directives # postI) # post)
       satisfies visited g
     = collectFields_loop ev reqCtx
         (pre @ InlineFragment typeCondition d (preI @ postI) # post) satisfies visited g"
    if seen: "fragmentName \<in> v1" for typeCondition d preI postI
  proof -
    have "collectFields_loop ev reqCtx
            (preI @ FragmentSpread fragmentName directives # postI) satisfies v1 []
          = collectFields_loop ev reqCtx (preI @ postI) satisfies v1 []"
      using _ inc
    proof (rule loop_spread_seen_noop)
      fix gi vi
      assume "collectFields_loop ev reqCtx preI satisfies v1 [] = Inr (gi, vi)"
      from loop_visited_mono [OF this] seen show "fragmentName \<in> vi" by blast
    qed
    then have "collectFields_loop ev reqCtx
                 (InlineFragment typeCondition d
                    (preI @ FragmentSpread fragmentName directives # postI) # post)
                 satisfies v1 g1
               = collectFields_loop ev reqCtx
                   (InlineFragment typeCondition d (preI @ postI) # post) satisfies v1 g1"
      by (simp only: collectFields_loop.simps)
    then show ?thesis by (simp add: loop_append [of _ _ pre] pre)
  qed
  show ?thesis
    by (intro conjI allI impI)
       (rule mono, erule again, erule marked [THEN conjunct1], erule marked [THEN conjunct2],
        erule incompatible, erule inline_threads, erule spread_threads,
        erule through_fragment, erule through_inline, erule into_inline)
qed

theorem fragment_spread_expanded_at_most_once_witness:
  "collectFields_loop sampleEvaluator docAB [] [''T''] {} [] = Inr ([], {})
   \<and> shouldIncludeNode sampleEvaluator [] (Variables docAB) = Inr True
   \<and> collectFields_loop sampleEvaluator docAB
         ([] @ FragmentSpread ''A'' [] # [] @ FragmentSpread ''B'' [] # []) [''T''] {} []
       = Inr ([\<lparr>Alias = ''a'', Name = ''a'', Args = None, Selections = []\<rparr>,
               \<lparr>Alias = ''b'', Name = ''b'', Args = None, Selections = []\<rparr>], {''A'', ''B''})
   \<and> collectFields_loop sampleEvaluator docAB
         ([] @ InlineFragment ''T'' [] ([] @ FragmentSpread ''B'' [] # [])
            # [] @ FragmentSpread ''B'' [] # []) [''T''] {} []
       = Inr ([\<lparr>Alias = ''b'', Name = ''b'', Args = None, Selections = []\<rparr>], {''B''})"
proof (intro conjI)
  show p: "collectFields_loop sampleEvaluator docAB [] [''T''] {} [] = Inr ([], {})" by simp
  show i: "shouldIncludeNode sampleEvaluator [] (Variables docAB) = Inr True"
    by (rule shouldIncludeNode_Nil)
  note t = fragment_spread_expanded_at_most_once
             [OF p i, where fragmentName = "''B''" and post = "[]"]
  have fa: "FragmentDefinitionList_ForName (Fragments docAB) ''A''
              = Some \<lparr>frag_Name = ''A'', frag_TypeCondition = ''T'',
                      frag_SelectionSet = [Field ''a'' ''a'' [] [] [], FragmentSpread ''B'' []]\<rparr>"
    by (simp add: docAB_def FragmentDefinitionList_ForName_def)
  have h: "shouldIncludeNode sampleEvaluator [] (Variables docAB) = Inr True
          \<and> ''A'' \<notin> ({} :: string set)
          \<and> FragmentDefinitionList_ForName (Fragments docAB) ''A''
              = Some \<lparr>frag_Name = ''A'', frag_TypeCondition = ''T'',
                      frag_SelectionSet = [Field ''a'' ''a'' [] [] [], FragmentSpread ''B'' []]\<rparr>
          \<and> frag_TypeCondition
               \<lparr>frag_Name = ''A'', frag_TypeCondition = ''T'',
                frag_SelectionSet = [Field ''a'' ''a'' [] [] [], FragmentSpread ''B'' []]\<rparr>
             \<in> set [''T'']
          \<and> frag_SelectionSet
               \<lparr>frag_Name = ''A'', frag_TypeCondition = ''T'',
                frag_SelectionSet = [Field ''a'' ''a'' [] [] [], FragmentSpread ''B'' []]\<rparr>
             = [Field ''a'' ''a'' [] [] []] @ FragmentSpread ''B'' [] # []
          \<and> shouldIncludeNode sampleEvaluator [] (Variables docAB) = Inr True"
    using i fa by simp
  have "collectFields_loop sampleEvaluator docAB
          ([] @ FragmentSpread ''A'' [] # [] @ FragmentSpread ''B'' [] # []) [''T''] {} []
        = collectFields_loop sampleEvaluator docAB
            ([] @ FragmentSpread ''A'' [] # [] @ []) [''T''] {} []"
    using t h by blast
  also have "\<dots> = Inr ([\<lparr>Alias = ''a'', Name = ''a'', Args = None, Selections = []\<rparr>,
               \<lparr>Alias = ''b'', Name = ''b'', Args = None, Selections = []\<rparr>], {''A'', ''B''})"
    using docAB_A by simp
  finally show "collectFields_loop sampleEvaluator docAB
         ([] @ FragmentSpread ''A'' [] # [] @ FragmentSpread ''B'' [] # []) [''T''] {} []
       = Inr ([\<lparr>Alias = ''a'', Name = ''a'', Args = None, Selections = []\<rparr>,
               \<lparr>Alias = ''b'', Name = ''b'', Args = None, Selections = []\<rparr>], {''A'', ''B''})" .
  have h2: "shouldIncludeNode sampleEvaluator [] (Variables docAB) = Inr True
          \<and> ''T'' \<in> set [''T'']
          \<and> shouldIncludeNode sampleEvaluator [] (Variables docAB) = Inr True"
    using i by simp
  have "collectFields_loop sampleEvaluator docAB
          ([] @ InlineFragment ''T'' [] ([] @ FragmentSpread ''B'' [] # [])
             # [] @ FragmentSpread ''B'' [] # []) [''T''] {} []
        = collectFields_loop sampleEvaluator docAB
            ([] @ InlineFragment ''T'' [] ([] @ FragmentSpread ''B'' [] # []) # [] @ [])
            [''T''] {} []"
    using t h2 by blast
  also have "\<dots> = Inr ([\<lparr>Alias = ''b'', Name = ''b'', Args = None, Selections = []\<rparr>], {''B''})"
    by (simp add: collect_defs docAB_def)
  finally show "collectFields_loop sampleEvaluator docAB
         ([] @ InlineFragment ''T'' [] ([] @ FragmentSpread ''B'' [] # [])
            # [] @ FragmentSpread ''B'' [] # []) [''T''] {} []
       = Inr ([\<lparr>Alias = ''b'', Name = ''b'', Args = None, Selections = []\<rparr>], {''B''})" .
qed

text \<open>
  C5. The collector returns on every input: every input is in the domain of the recursion
  of \<^verbatim>\<open>collectFields\<close> (first conjunct). The second half of the claim does not hold of the
  code. With fragment \<open>A\<close> selecting \<open>x: a { p }\<close> and spreading \<open>B\<close>, and \<open>B\<close> selecting
  \<open>b\<close> and spreading \<open>A\<close>, the collection of the selection set of \<open>A\<close> returns the
  field \<open>x\<close> twice: the fragment merge looks \<open>x\<close> up by its name \<open>a\<close> and finds no
  entry of that alias.
\<close>

theorem cycle_terminates_aliased_field_twice:
  "collectFields_loop_dom (ev, reqCtx, selSet, satisfies, visited, groupedFields)
   \<and> CollectFields sampleEvaluator docCycleAliased
         [Field ''x'' ''a'' [] [] [leaf ''p''], FragmentSpread ''B'' []] [''T'']
       = Inr [\<lparr>Alias = ''x'', Name = ''a'', Args = None, Selections = [leaf ''p'']\<rparr>,
              \<lparr>Alias = ''b'', Name = ''b'', Args = None, Selections = []\<rparr>,
              \<lparr>Alias = ''x'', Name = ''a'', Args = None,
                 Selections = [leaf ''p'', leaf ''p'', leaf ''p'', leaf ''p'']\<rparr>]"
proof
  show "collectFields_loop_dom (ev, reqCtx, selSet, satisfies, visited, groupedFields)"
    by (rule collectFields_loop_total)
next
  show "CollectFields sampleEvaluator docCycleAliased
         [Field ''x'' ''a'' [] [] [leaf ''p''], FragmentSpread ''B'' []] [''T'']
       = Inr [\<lparr>Alias = ''x'', Name = ''a'', Args = None, Selections = [leaf ''p'']\<rparr>,
              \<lparr>Alias = ''b'', Name = ''b'', Args = None, Selections = []\<rparr>,
              \<lparr>Alias = ''x'', Name = ''a'', Args = None,
                 Selections = [leaf ''p'', leaf ''p'', leaf ''p'', leaf ''p'']\<rparr>]"
    by (simp add: collect_defs docCycleAliased_def)
qed

text \<open>
  For fields without alias the cycle gives each field once: with \<open>A\<close> selecting \<open>a\<close> and
  spreading \<open>B\<close>, and \<open>B\<close> selecting \<open>b\<close> and spreading \<open>A\<close>, the selection set of \<open>A\<close>
  collects to \<open>[a, b]\<close>. (The child selections of each are repeated, as fragment
  contributions are.)
\<close>

lemma cycle_unaliased_fields_once:
  assumes frags: "Fragments reqCtx =
                    [\<lparr>frag_Name = A, frag_TypeCondition = tA,
                      frag_SelectionSet = [Field a a [] [] sa, FragmentSpread B []]\<rparr>,
                     \<lparr>frag_Name = B, frag_TypeCondition = tB,
                      frag_SelectionSet = [Field b b [] [] sb, FragmentSpread A []]\<rparr>]"
    and names: "A \<noteq> B" "a \<noteq> b"
    and sat: "tA \<in> set satisfies" "tB \<in> set satisfies"
  shows "collectFields_loop_dom (ev', reqCtx', selSet', satisfies', visited', g')
       \<and> CollectFields ev reqCtx [Field a a [] [] sa, FragmentSpread B []] satisfies
         = Inr [\<lparr>Alias = a, Name = a, Args = None, Selections = sa @ sa @ sa\<rparr>,
                \<lparr>Alias = b, Name = b, Args = None, Selections = sb @ sb\<rparr>]"
proof
  show "collectFields_loop_dom (ev', reqCtx', selSet', satisfies', visited', g')"
    by (rule collectFields_loop_total)
next
  let ?selA = "[Field a a [] [] sa, FragmentSpread B []]"
  let ?selB = "[Field b b [] [] sb, FragmentSpread A []]"
  let ?fragA = "\<lparr>frag_Name = A, frag_TypeCondition = tA, frag_SelectionSet = ?selA\<rparr>"
  let ?fragB = "\<lparr>frag_Name = B, frag_TypeCondition = tB, frag_SelectionSet = ?selB\<rparr>"
  let ?a = "\<lambda>ss. \<lparr>Alias = a, Name = a, Args = None, Selections = ss\<rparr>"
  let ?b = "\<lambda>ss. \<lparr>Alias = b, Name = b, Args = None, Selections = ss\<rparr>"
  have inc: "shouldIncludeNode ev [] (Variables reqCtx) = Inr True"
    by (rule shouldIncludeNode_Nil)
  have fa: "FragmentDefinitionList_ForName (Fragments reqCtx) A = Some ?fragA"
    by (simp add: frags FragmentDefinitionList_ForName_def)
  have fb: "FragmentDefinitionList_ForName (Fragments reqCtx) B = Some ?fragB"
    using names by (simp add: frags FragmentDefinitionList_ForName_def)
  have levelA: "collectFields_loop ev reqCtx ?selA satisfies {A, B} [] = Inr ([?a sa], {A, B})"
  proof -
    have "collectFields_loop ev reqCtx ?selA satisfies {A, B} []
          = collectFields_loop ev reqCtx [FragmentSpread B []] satisfies {A, B} [?a sa]"
      by (simp only: loop_Field_included [OF inc getOrCreateField_first])
         (simp add: appendSelections_def)
    also have "\<dots> = collectFields_loop ev reqCtx [] satisfies {A, B} [?a sa]"
      by (rule loop_FragmentSpread_seen [OF inc]) simp
    finally show ?thesis by simp
  qed
  have levelB: "collectFields_loop ev reqCtx ?selB satisfies {B} []
                = Inr ([?b sb, ?a (sa @ sa)], {A, B})"
  proof -
    have "collectFields_loop ev reqCtx ?selB satisfies {B} []
          = collectFields_loop ev reqCtx [FragmentSpread A []] satisfies {B} [?b sb]"
      by (simp only: loop_Field_included [OF inc getOrCreateField_first])
         (simp add: appendSelections_def)
    also have "\<dots> = collectFields_loop ev reqCtx [] satisfies {A, B} [?b sb, ?a (sa @ sa)]"
    proof (rule loop_FragmentSpread_expanded [OF inc _ fa])
      show "A \<notin> {B}" using names by simp
      show "frag_TypeCondition ?fragA \<in> set satisfies" using sat by simp
      show "collectFields_loop ev reqCtx (frag_SelectionSet ?fragA) satisfies (insert A {B}) []
            = Inr ([?a sa], {A, B})"
        using levelA by simp
      show "mergeChildFields [?b sb] [?a sa] = Inr [?b sb, ?a (sa @ sa)]"
        using names by (simp add: getOrCreateField_def appendSelections_def)
    qed
    finally show ?thesis by simp
  qed
  have top: "collectFields_loop ev reqCtx ?selA satisfies {} []
             = Inr ([?a (sa @ sa @ sa), ?b (sb @ sb)], {A, B})"
  proof -
    have "collectFields_loop ev reqCtx ?selA satisfies {} []
          = collectFields_loop ev reqCtx [FragmentSpread B []] satisfies {} [?a sa]"
      by (simp only: loop_Field_included [OF inc getOrCreateField_first])
         (simp add: appendSelections_def)
    also have "\<dots> = collectFields_loop ev reqCtx [] satisfies {A, B}
                       [?a (sa @ sa @ sa), ?b (sb @ sb)]"
    proof (rule loop_FragmentSpread_expanded [OF inc _ fb])
      show "B \<notin> {}" by simp
      show "frag_TypeCondition ?fragB \<in> set satisfies" using sat by simp
      show "collectFields_loop ev reqCtx (frag_SelectionSet ?fragB) satisfies (insert B {}) []
            = Inr ([?b sb, ?a (sa @ sa)], {A, B})"
        using levelB by simp
      show "mergeChildFields [?a sa] [?b sb, ?a (sa @ sa)]
            = Inr [?a (sa @ sa @ sa), ?b (sb @ sb)]"
        using names by (simp add: getOrCreateField_def appendSelections_def)
    qed
    finally show ?thesis by simp
  qed
  then show "CollectFields ev reqCtx ?selA satisfies
             = Inr [?a (sa @ sa @ sa), ?b (sb @ sb)]"
    by (simp add: CollectFields_loop)
qed

section \<open>Conditional inclusion\<close>

text \<open>
  C9, as stated, fails. \<^verbatim>\<open>shouldIncludeNode\<close> returns from the skip directive when the
  node has one, so an include directive on the same node is never looked at: the field
  \<^verbatim>\<open>a @skip(if: false) @include\<close> carries an include directive without \<^verbatim>\<open>if\<close>, and the
  collection returns the field.
\<close>

theorem include_ignored_after_skip_counterexample:
  "DirectiveList_ForName skipFalseIncludeBare ''include''
     = Some \<lparr>dir_Name = ''include'', dir_Arguments = []\<rparr>
   \<and> ArgumentList_ForName (dir_Arguments \<lparr>dir_Name = ''include'', dir_Arguments = []\<rparr>) ''if''
       = None
   \<and> CollectFields sampleEvaluator emptyDoc
         [Field ''a'' ''a'' [] skipFalseIncludeBare []] []
       = Inr [\<lparr>Alias = ''a'', Name = ''a'', Args = None, Selections = []\<rparr>]"
  by (simp add: collect_defs emptyDoc_def skipFalseIncludeBare_def)

text \<open>
  C9, amended. The directive that is consulted for a node is its first skip directive or,
  when it has no skip directive, its first include directive. When that directive has no
  \<^verbatim>\<open>if\<close> argument, or the argument does not evaluate to a boolean (the evaluation fails
  or gives another value), \<^verbatim>\<open>shouldIncludeNode\<close> panics, and so does the collection of
  every selection set that holds a field, an inline fragment or a fragment spread with
  these directives: the result is an error and no list of fields.
\<close>

theorem malformed_consulted_directive_aborts:
  assumes consulted:
    "DirectiveList_ForName directives ''skip'' = Some d
     \<or> (DirectiveList_ForName directives ''skip'' = None
        \<and> DirectiveList_ForName directives ''include'' = Some d)"
    and malformed:
    "ArgumentList_ForName (dir_Arguments d) ''if'' = None
     \<or> (\<exists>arg. ArgumentList_ForName (dir_Arguments d) ''if'' = Some arg
              \<and> (\<forall>ret. ev (arg_Value arg) (Variables reqCtx) \<noteq> Inr (VBool ret)))"
  shows "(\<exists>e. shouldIncludeNode ev directives (Variables reqCtx) = Inl e)
       \<and> (\<exists>e. CollectFields ev reqCtx
                 (pre @ Field al nm arguments directives selectionSet # post) satisfies = Inl e)
       \<and> (\<exists>e. CollectFields ev reqCtx
                 (pre @ InlineFragment typeCondition directives selectionSet # post) satisfies
               = Inl e)
       \<and> (\<exists>e. CollectFields ev reqCtx
                 (pre @ FragmentSpread fragmentName directives # post) satisfies = Inl e)"
proof -
  have "\<exists>e0. resolveIfArgument ev d (Variables reqCtx) = Inl e0"
    using malformed
  proof (elim disjE exE conjE)
    assume "ArgumentList_ForName (dir_Arguments d) ''if'' = None"
    then show ?thesis by (simp add: resolveIfArgument_def)
  next
    fix arg
    assume arg: "ArgumentList_ForName (dir_Arguments d) ''if'' = Some arg"
      and nb: "\<forall>ret. ev (arg_Value arg) (Variables reqCtx) \<noteq> Inr (VBool ret)"
    show ?thesis
    proof (cases "ev (arg_Value arg) (Variables reqCtx)")
      case (Inl err)
      with arg show ?thesis by (simp add: resolveIfArgument_def)
    next
      case (Inr v)
      with nb have "\<forall>ret. v \<noteq> VBool ret" by simp
      with arg Inr show ?thesis by (cases v) (auto simp: resolveIfArgument_def)
    qed
  qed
  then obtain e0 where r: "resolveIfArgument ev d (Variables reqCtx) = Inl e0" ..
  with consulted have s: "shouldIncludeNode ev directives (Variables reqCtx) = Inl e0"
    by (auto simp: shouldIncludeNode_def)
  have abort: "\<exists>e. CollectFields ev reqCtx (pre @ x # post) satisfies = Inl e"
    if "\<And>v' g'. collectFields_loop ev reqCtx (x # post) satisfies v' g' = Inl e0" for x
    using that
    by (cases "collectFields_loop ev reqCtx pre satisfies {} []")
       (auto simp: CollectFields_loop loop_append [of _ _ pre])
  show ?thesis
    using s by (intro conjI abort) simp_all
qed

theorem malformed_consulted_directive_aborts_witness:
  "(DirectiveList_ForName [skipIfString] ''skip'' = Some skipIfString
    \<or> (DirectiveList_ForName [skipIfString] ''skip'' = None
       \<and> DirectiveList_ForName [skipIfString] ''include'' = Some skipIfString))
   \<and> (ArgumentList_ForName (dir_Arguments skipIfString) ''if'' = None
     \<or> (\<exists>arg. ArgumentList_ForName (dir_Arguments skipIfString) ''if'' = Some arg
              \<and> (\<forall>ret. sampleEvaluator (arg_Value arg) (Variables emptyDoc) \<noteq> Inr (VBool ret))))
   \<and> (\<exists>e. CollectFields sampleEvaluator emptyDoc
              ([Field ''a'' ''a'' [] [] []] @ Field ''b'' ''b'' [] [skipIfString] []
                 # [Field ''c'' ''c'' [] [] []]) [] = Inl e)"
proof (intro conjI)
  show a: "DirectiveList_ForName [skipIfString] ''skip'' = Some skipIfString
    \<or> (DirectiveList_ForName [skipIfString] ''skip'' = None
       \<and> DirectiveList_ForName [skipIfString] ''include'' = Some skipIfString)"
    by (simp add: DirectiveList_ForName_def skipIfString_def)
  show b: "ArgumentList_ForName (dir_Arguments skipIfString) ''if'' = None
     \<or> (\<exists>arg. ArgumentList_ForName (dir_Arguments skipIfString) ''if'' = Some arg
              \<and> (\<forall>ret. sampleEvaluator (arg_Value arg) (Variables emptyDoc) \<noteq> Inr (VBool ret)))"
    by (simp add: ArgumentList_ForName_def skipIfString_def sampleEvaluator_def)
  show "\<exists>e. CollectFields sampleEvaluator emptyDoc
              ([Field ''a'' ''a'' [] [] []] @ Field ''b'' ''b'' [] [skipIfString] []
                 # [Field ''c'' ''c'' [] [] []]) [] = Inl e"
    by (rule malformed_consulted_directive_aborts
               [where ev = sampleEvaluator and reqCtx = emptyDoc, OF a b,
                THEN conjunct2, THEN conjunct1])
qed

section \<open>Arguments\<close>

text \<open>
  C8. An argument whose value is a variable that the variable map does not bind leaves
  no trace: the loop over the arguments gives the result it gives without that argument,
  so it stores nothing and does not fail. A field with this single argument gets an
  empty argument map. When no other argument has its name, the name is not a key of the
  collected field's arguments.
\<close>

theorem unbound_variable_argument_omitted:
  assumes var: "Kind (arg_Value a) = Variable"
    and unbound: "vars (Raw (arg_Value a)) = None"
  shows "collectArguments ev vars (pre @ a # post) m = collectArguments ev vars (pre @ post) m
       \<and> newCollectedField ev vars al nm [a]
           = Inr \<lparr>Alias = al, Name = nm, Args = Some Map.empty, Selections = []\<rparr>
       \<and> (\<forall>f. newCollectedField ev vars al nm (pre @ a # post) = Inr f
              \<and> (\<forall>a' \<in> set (pre @ post). arg_Name a' \<noteq> arg_Name a)
              \<longrightarrow> (\<exists>m'. Args f = Some m' \<and> m' (arg_Name a) = None))"
proof -
  have step: "collectArguments ev vars (a # post) m' = collectArguments ev vars post m'" for m'
    using var unbound by simp
  have eq: "collectArguments ev vars (pre @ a # post) m' = collectArguments ev vars (pre @ post) m'"
    for m'
  proof (induction pre arbitrary: m')
    case Nil
    show ?case by (simp only: append_Nil step)
  next
    case (Cons x pre)
    show ?case by (simp only: append_Cons collectArguments.simps Cons.IH)
  qed
  have keep: "collectArguments ev vars xs m0 = Inr m' \<Longrightarrow> m0 n = None \<Longrightarrow>
              \<forall>a' \<in> set xs. arg_Name a' \<noteq> n \<Longrightarrow> m' n = None" for xs m0 m' n
    by (induction xs arbitrary: m0) (auto split: if_splits option.splits sum.splits)
  have one: "newCollectedField ev vars al nm [a]
               = Inr \<lparr>Alias = al, Name = nm, Args = Some Map.empty, Selections = []\<rparr>"
    using var unbound by (simp add: newCollectedField_def)
  have absent: "\<exists>m'. Args f = Some m' \<and> m' (arg_Name a) = None"
    if "newCollectedField ev vars al nm (pre @ a # post) = Inr f
          \<and> (\<forall>a' \<in> set (pre @ post). arg_Name a' \<noteq> arg_Name a)" for f
  proof -
    from that obtain m' where
      m': "collectArguments ev vars (pre @ post) Map.empty = Inr m'" and f: "Args f = Some m'"
      by (auto simp: newCollectedField_def eq split: sum.splits)
    from keep [OF m'] that have "m' (arg_Name a) = None" by simp
    with f show ?thesis by simp
  qed
  from eq one absent show ?thesis by blast
qed

theorem unbound_variable_argument_omitted_witness:
  "Kind (arg_Value \<lparr>arg_Name = ''first'', arg_Value = Value Variable ''n'' []\<rparr>) = Variable
   \<and> Map.empty (Raw (arg_Value \<lparr>arg_Name = ''first'', arg_Value = Value Variable ''n'' []\<rparr>))
       = (None :: rtval option)
   \<and> newCollectedField sampleEvaluator Map.empty ''items'' ''items''
         [\<lparr>arg_Name = ''first'', arg_Value = Value Variable ''n'' []\<rparr>]
       = Inr \<lparr>Alias = ''items'', Name = ''items'', Args = Some Map.empty, Selections = []\<rparr>"
proof (intro conjI)
  show a: "Kind (arg_Value \<lparr>arg_Name = ''first'', arg_Value = Value Variable ''n'' []\<rparr>) = Variable"
    by simp
  show b: "Map.empty (Raw (arg_Value \<lparr>arg_Name = ''first'', arg_Value = Value Variable ''n'' []\<rparr>))
       = (None :: rtval option)"
    by simp
  show "newCollectedField sampleEvaluator Map.empty ''items'' ''items''
         [\<lparr>arg_Name = ''first'', arg_Value = Value Variable ''n'' []\<rparr>]
       = Inr \<lparr>Alias = ''items'', Name = ''items'', Args = Some Map.empty, Selections = []\<rparr>"
    by (rule unbound_variable_argument_omitted [OF a b, THEN conjunct2, THEN conjunct1])
qed

end
